theory Spec2Isabelle
  imports Main "HOL-Library.Char_ord" "HOL-Library.List_Lexorder"
begin

section \<open>JSON values\<close>

text \<open>
  The values that flow through the program are the results of \<^verbatim>\<open>JSON.parse\<close>:
  \<^verbatim>\<open>null\<close>, booleans, numbers, strings, arrays and plain objects. An object is
  kept as its list of own properties (key, value); a JavaScript object never has two
  properties with the same key. Of the numbers, the integers are modelled: \<open>JNum i\<close>
  is the number \<open>i\<close>, which a JavaScript number holds exactly when its magnitude is at
  most \<open>2^53 - 1\<close>. Numbers with a fraction, numbers of larger magnitude and the
  infinite numbers (which \<^verbatim>\<open>JSON.parse\<close> returns for a text such as \<^verbatim>\<open>1e400\<close>, and
  which \<^verbatim>\<open>JSON.stringify\<close> prints as \<^verbatim>\<open>null\<close>) have no value here; what is proved
  below of the decoding of numbers is stated for the integers within that bound.
  Strings are lists of 8-bit characters, compared by code.
\<close>

datatype json =
    JNull
  | JBool bool
  | JNum int
  | JStr string
  | JArr "json list"
  | JObj "(string \<times> json) list"


section \<open>Built-ins of the platform\<close>

text \<open>\<^verbatim>\<open>Array.prototype.join\<close>.\<close>

fun join :: "string \<Rightarrow> string list \<Rightarrow> string" where
  "join sep [] = []"
| "join sep [x] = x"
| "join sep (x # y # ys) = x @ sep @ join sep (y # ys)"

text \<open>Decimal digits of a natural number, as \<^verbatim>\<open>Number.prototype.toString\<close> prints them.\<close>

definition digit_char :: "nat \<Rightarrow> char" where
  "digit_char d = (''0123456789'' @ replicate 6 CHR ''0'') ! (d mod 16)"

function digits10 :: "nat \<Rightarrow> string" where
  "digits10 n = (if n < 10 then [digit_char n] else digits10 (n div 10) @ [digit_char (n mod 10)])"
  by pat_completeness auto
termination
  by (relation "measure id") auto

declare digits10.simps [simp del]

definition Number_toString :: "int \<Rightarrow> string" where
  "Number_toString i = (if i < 0 then CHR ''-'' # digits10 (nat (- i)) else digits10 (nat i))"

text \<open>
  \<^verbatim>\<open>JSON.stringify\<close> on a string: the text between double quotes, with the double
  quote, the backslash and the control characters escaped.
\<close>

definition hex_char :: "nat \<Rightarrow> char" where
  "hex_char d = ''0123456789abcdef'' ! (d mod 16)"

definition quote_char :: "char \<Rightarrow> string" where
  "quote_char c =
     (if c = CHR 0x22 then [CHR 0x5C, CHR 0x22]
      else if c = CHR 0x5C then [CHR 0x5C, CHR 0x5C]
      else if c = CHR 0x08 then [CHR 0x5C, CHR ''b'']
      else if c = CHR 0x0C then [CHR 0x5C, CHR ''f'']
      else if c = CHR 0x0A then [CHR 0x5C, CHR ''n'']
      else if c = CHR 0x0D then [CHR 0x5C, CHR ''r'']
      else if c = CHR 0x09 then [CHR 0x5C, CHR ''t'']
      else if (of_char c :: nat) < 32
        then [CHR 0x5C, CHR ''u'', CHR ''0'', CHR ''0'',
              hex_char (of_char c div 16), hex_char (of_char c mod 16)]
      else [c])"

definition quote_string :: "string \<Rightarrow> string" where
  "quote_string s = CHR 0x22 # concat (map quote_char s) @ [CHR 0x22]"

text \<open>\<^verbatim>\<open>JSON.stringify\<close> on a value that is not an object (a boolean, a number, a string).\<close>

fun JSON_stringify_scalar :: "json \<Rightarrow> string" where
  "JSON_stringify_scalar (JBool b) = (if b then ''true'' else ''false'')"
| "JSON_stringify_scalar (JNum i) = Number_toString i"
| "JSON_stringify_scalar (JStr s) = quote_string s"
| "JSON_stringify_scalar _ = ''undefined''"

section \<open>utils.js: canonicalStringify\<close>

text \<open>
  \<^verbatim>\<open>
  export function canonicalStringify(obj) {
      if (obj === null) return 'null';
      if (obj === undefined) return 'undefined';
      if (typeof obj !== 'object') return JSON.stringify(obj);
      if (Array.isArray(obj)) {
          return '[' + obj.map(canonicalStringify).join(',') + ']';
      }
      const keys = Object.keys(obj).sort();
      const pairs = keys.map(key => `"${key}":${canonicalStringify(obj[key])}`);
      return '{' + pairs.join(',') + '}';
  }
  \<close>
  \<^verbatim>\<open>obj[key]\<close> is the lookup \<open>map_of\<close>; a key that is not a property reads
  as \<^verbatim>\<open>undefined\<close>. The key is written between quotes as it is, without escaping.
\<close>

lemma json_size_lookup:
  "map_of kvs key = Some v \<Longrightarrow> size v < Suc (size_list (size_prod (\<lambda>_. 0) size) kvs)"
  by (induction kvs) (auto split: if_splits)

function canonicalStringify :: "json \<Rightarrow> string" where
  "canonicalStringify JNull = ''null''"
| "canonicalStringify (JBool b) = JSON_stringify_scalar (JBool b)"
| "canonicalStringify (JNum i) = JSON_stringify_scalar (JNum i)"
| "canonicalStringify (JStr s) = JSON_stringify_scalar (JStr s)"
| "canonicalStringify (JArr xs) = ''['' @ join '','' (map canonicalStringify xs) @ '']''"
| "canonicalStringify (JObj kvs) =
     (let keys = sort (map fst kvs);
          pairs = map (\<lambda>key. [CHR 0x22] @ key @ [CHR 0x22] @ '':'' @
                    (case map_of kvs key of
                       Some v \<Rightarrow> canonicalStringify v
                     | None \<Rightarrow> ''undefined'')) keys
      in ''{'' @ join '','' pairs @ ''}'')"
  by pat_completeness auto
termination
  by (relation "measure size") (auto simp: less_Suc_eq_le size_list_estimation' dest: json_size_lookup)

section \<open>Structural equality of JSON values\<close>

text \<open>
  Two values are structurally equal when they have the same scalars, the same array
  elements in the same order, and objects with the same keys carrying structurally
  equal values, in whatever order the keys were emitted.
\<close>

inductive json_equiv :: "json \<Rightarrow> json \<Rightarrow> bool" where
  equiv_null: "json_equiv JNull JNull"
| equiv_bool: "json_equiv (JBool b) (JBool b)"
| equiv_num: "json_equiv (JNum i) (JNum i)"
| equiv_str: "json_equiv (JStr s) (JStr s)"
| equiv_arr: "list_all2 json_equiv xs ys \<Longrightarrow> json_equiv (JArr xs) (JArr ys)"
| equiv_obj: "distinct (map fst xs) \<Longrightarrow> distinct (map fst ys) \<Longrightarrow>
     set (map fst xs) = set (map fst ys) \<Longrightarrow>
     (\<forall>k v w. map_of xs k = Some v \<longrightarrow> map_of ys k = Some w \<longrightarrow> json_equiv v w) \<Longrightarrow>
     json_equiv (JObj xs) (JObj ys)"

section \<open>JSON.parse\<close>

text \<open>
  The platform's \<^verbatim>\<open>JSON.parse\<close>, for the JSON texts whose numbers are integers and
  whose characters are 8-bit: white space between tokens, the literals, integers,
  strings with their escapes, arrays and objects. \<open>None\<close> is the SyntaxError that
  \<^verbatim>\<open>JSON.parse\<close> throws. A number with a fraction or an exponent and a
  \<^verbatim>\<open>\u\<close> escape above 255 have no counterpart among the values modelled here;
  the model answers \<open>None\<close> on them too.
\<close>

definition is_ws :: "char \<Rightarrow> bool" where
  "is_ws c = (c = CHR 0x20 \<or> c = CHR 0x09 \<or> c = CHR 0x0A \<or> c = CHR 0x0D)"

definition skip_ws :: "string \<Rightarrow> string" where
  "skip_ws s = dropWhile is_ws s"

definition is_digit :: "char \<Rightarrow> bool" where
  "is_digit c = (48 \<le> (of_char c :: nat) \<and> (of_char c :: nat) \<le> 57)"

definition nat_of_digits :: "string \<Rightarrow> nat" where
  "nat_of_digits ds = foldl (\<lambda>a c. 10 * a + (of_char c - 48)) 0 ds"

fun strip_prefix :: "string \<Rightarrow> string \<Rightarrow> string option" where
  "strip_prefix [] s = Some s"
| "strip_prefix (p # ps) [] = None"
| "strip_prefix (p # ps) (c # cs) = (if p = c then strip_prefix ps cs else None)"

definition parse_int :: "string \<Rightarrow> (int \<times> string) option" where
  "parse_int s =
     (let ds = takeWhile is_digit s; rest = dropWhile is_digit s in
      if ds = [] then None
      else if hd ds = CHR ''0'' \<and> tl ds \<noteq> [] then None
      else if rest \<noteq> [] \<and> hd rest \<in> {CHR ''.'', CHR ''e'', CHR ''E''} then None
      else Some (int (nat_of_digits ds), rest))"

definition parse_number :: "string \<Rightarrow> (json \<times> string) option" where
  "parse_number s =
     (case s of
        [] \<Rightarrow> None
      | c # cs \<Rightarrow>
          if c = CHR ''-'' then map_option (\<lambda>(i, rest). (JNum (- i), rest)) (parse_int cs)
          else map_option (\<lambda>(i, rest). (JNum i, rest)) (parse_int s))"

definition hex_value :: "char \<Rightarrow> nat option" where
  "hex_value c =
     (let n = (of_char c :: nat) in
      if 48 \<le> n \<and> n \<le> 57 then Some (n - 48)
      else if 97 \<le> n \<and> n \<le> 102 then Some (n - 87)
      else if 65 \<le> n \<and> n \<le> 70 then Some (n - 55)
      else None)"

definition unescape :: "char \<Rightarrow> char option" where
  "unescape c =
     (if c = CHR 0x22 then Some (CHR 0x22)
      else if c = CHR 0x5C then Some (CHR 0x5C)
      else if c = CHR ''/'' then Some (CHR ''/'')
      else if c = CHR ''b'' then Some (CHR 0x08)
      else if c = CHR ''f'' then Some (CHR 0x0C)
      else if c = CHR ''n'' then Some (CHR 0x0A)
      else if c = CHR ''r'' then Some (CHR 0x0D)
      else if c = CHR ''t'' then Some (CHR 0x09)
      else None)"

text \<open>The characters of a string literal, after its opening quote, up to the closing one.\<close>

fun parse_chars :: "string \<Rightarrow> (string \<times> string) option" where
  "parse_chars [] = None"
| "parse_chars (c # s) =
     (if c = CHR 0x22 then Some ([], s)
      else if c = CHR 0x5C then
        (case s of
           [] \<Rightarrow> None
         | d # s1 \<Rightarrow>
             if d = CHR ''u'' then
               (case s1 of
                  h1 # h2 # h3 # h4 # s2 \<Rightarrow>
                    (case (hex_value h1, hex_value h2, hex_value h3, hex_value h4) of
                       (Some a, Some b, Some x, Some y) \<Rightarrow>
                         if a = 0 \<and> b = 0
                         then map_option (\<lambda>(str, rest). (char_of (16 * x + y) # str, rest))
                                (parse_chars s2)
                         else None
                     | _ \<Rightarrow> None)
                | _ \<Rightarrow> None)
             else
               (case unescape d of
                  None \<Rightarrow> None
                | Some e \<Rightarrow> map_option (\<lambda>(str, rest). (e # str, rest)) (parse_chars s1)))
      else if (of_char c :: nat) < 32 then None
      else map_option (\<lambda>(str, rest). (c # str, rest)) (parse_chars s))"

section \<open>Property order of an object\<close>

text \<open>
  The own properties of a JavaScript object are enumerated with the array indices
  first, in ascending numeric order, then the other keys in the order of their
  creation. Writing to an existing key keeps its place.
\<close>

definition is_array_index :: "string \<Rightarrow> bool" where
  "is_array_index k =
     (k \<noteq> [] \<and> list_all is_digit k \<and> (hd k \<noteq> CHR ''0'' \<or> tl k = [])
      \<and> nat_of_digits k < 4294967295)"

fun obj_insert :: "(string \<times> 'a) list \<Rightarrow> string \<Rightarrow> 'a \<Rightarrow> (string \<times> 'a) list" where
  "obj_insert [] k v = [(k, v)]"
| "obj_insert ((k', v') # rest) k v =
     (if is_array_index k \<and> (\<not> is_array_index k' \<or> nat_of_digits k < nat_of_digits k')
      then (k, v) # (k', v') # rest
      else (k', v') # obj_insert rest k v)"

definition obj_set :: "(string \<times> 'a) list \<Rightarrow> string \<Rightarrow> 'a \<Rightarrow> (string \<times> 'a) list" where
  "obj_set obj k v =
     (if k \<in> fst ` set obj
      then map (\<lambda>(k', v'). if k' = k then (k', v) else (k', v')) obj
      else obj_insert obj k v)"

text \<open>
  Defining the properties of \<open>source\<close> on an object, in their order: the object
  spread \<^verbatim>\<open>{...a, ...b}\<close> is \<open>spread (spread [] a) b\<close>.
\<close>

definition spread :: "(string \<times> 'a) list \<Rightarrow> (string \<times> 'a) list \<Rightarrow> (string \<times> 'a) list" where
  "spread obj source = foldl (\<lambda>obj (k, v). obj_set obj k v) obj source"

text \<open>The object built from the members of an object literal, left to right.\<close>

definition obj_of_members :: "(string \<times> 'a) list \<Rightarrow> (string \<times> 'a) list" where
  "obj_of_members kvs = spread [] kvs"

text \<open>
  The recursive descent over values, array elements and object members. The first
  argument bounds the nesting of calls; \<open>JSON_parse\<close> starts it above the length of
  the text.
\<close>

definition next_token :: "string \<Rightarrow> (char \<times> string) option" where
  "next_token s = (case skip_ws s of [] \<Rightarrow> None | c # rest \<Rightarrow> Some (c, rest))"

definition expect :: "char \<Rightarrow> string \<Rightarrow> string option" where
  "expect d s = (case next_token s of None \<Rightarrow> None | Some (c, r) \<Rightarrow> if c = d then Some r else None)"

definition parse_scalar :: "char \<Rightarrow> string \<Rightarrow> (json \<times> string) option" where
  "parse_scalar c rest =
     (if c = CHR ''n'' then map_option (Pair JNull) (strip_prefix ''ull'' rest)
      else if c = CHR ''t'' then map_option (Pair (JBool True)) (strip_prefix ''rue'' rest)
      else if c = CHR ''f'' then map_option (Pair (JBool False)) (strip_prefix ''alse'' rest)
      else if c = CHR 0x22 then map_option (\<lambda>(str, r). (JStr str, r)) (parse_chars rest)
      else parse_number (c # rest))"

fun parse_value :: "nat \<Rightarrow> string \<Rightarrow> (json \<times> string) option"
and parse_elements :: "nat \<Rightarrow> string \<Rightarrow> (json list \<times> string) option"
and parse_members :: "nat \<Rightarrow> string \<Rightarrow> ((string \<times> json) list \<times> string) option" where
  "parse_value 0 s = None"
| "parse_value (Suc n) s =
     (case next_token s of
        None \<Rightarrow> None
      | Some (c, rest) \<Rightarrow>
          if c = CHR ''['' then
            (case expect (CHR '']'') rest of
               Some r \<Rightarrow> Some (JArr [], r)
             | None \<Rightarrow> map_option (\<lambda>(xs, r'). (JArr xs, r')) (parse_elements n rest))
          else if c = CHR ''{'' then
            (case expect (CHR ''}'') rest of
               Some r \<Rightarrow> Some (JObj [], r)
             | None \<Rightarrow> map_option (\<lambda>(kvs, r'). (JObj (obj_of_members kvs), r'))
                         (parse_members n rest))
          else parse_scalar c rest)"
| "parse_elements 0 s = None"
| "parse_elements (Suc n) s =
     (case parse_value n s of
        None \<Rightarrow> None
      | Some (x, r) \<Rightarrow>
          (case next_token r of
             None \<Rightarrow> None
           | Some (d, r') \<Rightarrow>
               if d = CHR '','' then map_option (\<lambda>(xs, r''). (x # xs, r'')) (parse_elements n r')
               else if d = CHR '']'' then Some ([x], r')
               else None))"
| "parse_members 0 s = None"
| "parse_members (Suc n) s =
     (case next_token s of
        None \<Rightarrow> None
      | Some (q, r) \<Rightarrow>
          if q \<noteq> CHR 0x22 then None
          else
            (case parse_chars r of
               None \<Rightarrow> None
             | Some (k, r1) \<Rightarrow>
                 (case next_token r1 of
                    None \<Rightarrow> None
                  | Some (colon, r2) \<Rightarrow>
                      if colon \<noteq> CHR '':'' then None
                      else
                        (case parse_value n r2 of
                           None \<Rightarrow> None
                         | Some (v, r3) \<Rightarrow>
                             (case next_token r3 of
                                None \<Rightarrow> None
                              | Some (d, r4) \<Rightarrow>
                                  if d = CHR '','' then
                                    map_option (\<lambda>(kvs, r5). ((k, v) # kvs, r5)) (parse_members n r4)
                                  else if d = CHR ''}'' then Some ([(k, v)], r4)
                                  else None)))))"

definition JSON_parse :: "string \<Rightarrow> json option" where
  "JSON_parse s =
     (case parse_value (Suc (length s)) s of
        None \<Rightarrow> None
      | Some (v, rest) \<Rightarrow> if skip_ws rest = [] then Some v else None)"

section \<open>config.js\<close>

record config =
  VOTE_MARGIN_K :: int
  MAX_ATTEMPTS_PER_STEP :: nat
  BATCH_SIZE :: nat
  ENABLE_PARALLEL :: bool
  EARLY_TERMINATION :: bool
  DEV_MODE :: bool

section \<open>consensus.js\<close>

text \<open>
  The tally \<^verbatim>\<open>votes\<close> is an object from canonical keys to counts, kept as its list of
  entries in the order \<^verbatim>\<open>Object.entries\<close> enumerates them.
  \<^verbatim>\<open>votes[resultKey] = (votes[resultKey] || 0) + 1\<close>:
\<close>

type_synonym votes = "(string \<times> nat) list"

definition count_vote :: "votes \<Rightarrow> string \<Rightarrow> votes" where
  "count_vote votes resultKey =
     obj_set votes resultKey ((case map_of votes resultKey of Some c \<Rightarrow> c | None \<Rightarrow> 0) + 1)"

text \<open>
  The decision check, written three times in the source:
  \<^verbatim>\<open>
  const sortedResults = Object.entries(votes).sort((a, b) => b[1] - a[1]);
  const leader = sortedResults[0];
  const runnerUp = sortedResults[1];
  if (leader) {
      const leaderVotes = leader[1];
      const runnerUpVotes = runnerUp ? runnerUp[1] : 0;
      const margin = leaderVotes - runnerUpVotes;
      if (margin >= CONFIG.VOTE_MARGIN_K) { return ... leader[0] ... margin ... }
  }
  \<close>
  The sort is stable and descending in the count. The result is the leader's key and
  the margin when the winning condition holds.
\<close>

definition sortedResults :: "votes \<Rightarrow> votes" where
  "sortedResults votes = sort_key (\<lambda>e. - int (snd e)) votes"

definition winning :: "config \<Rightarrow> votes \<Rightarrow> (string \<times> int) option" where
  "winning cfg votes =
     (case sortedResults votes of
        [] \<Rightarrow> None
      | leader # others \<Rightarrow>
          let leaderVotes = snd leader;
              runnerUpVotes = (case others of [] \<Rightarrow> 0 | runnerUp # _ \<Rightarrow> snd runnerUp);
              margin = int leaderVotes - int runnerUpVotes
          in if margin \<ge> VOTE_MARGIN_K cfg then Some (fst leader, margin) else None)"

text \<open>
  What a call returns or throws. \<open>Error\<close> carries the message of
  \<^verbatim>\<open>new Error(...)\<close>; \<open>SyntaxError\<close> is thrown by \<^verbatim>\<open>JSON.parse\<close>; \<open>TypeError\<close> by
  spreading a value that is not iterable.
\<close>

datatype js_error = Error string | SyntaxError | TypeError

record outcome =
  outcome_value :: json
  voteMargin :: int
  totalVotes :: nat
  attempts :: nat

text \<open>
  \<^verbatim>\<open>
  return { value: JSON.parse(leader[0]),
           metadata: { voteMargin: margin, totalVotes: attempts, attempts: attempts } };
  \<close>
\<close>

definition decided :: "string \<Rightarrow> int \<Rightarrow> nat \<Rightarrow> js_error + outcome" where
  "decided leaderKey margin n =
     (case JSON_parse leaderKey of
        None \<Rightarrow> Inl SyntaxError
      | Some v \<Rightarrow> Inr \<lparr>outcome_value = v, voteMargin = margin, totalVotes = n, attempts = n\<rparr>)"

definition unresolved :: "config \<Rightarrow> js_error + outcome" where
  "unresolved cfg =
     Inl (Error (''Failed to reach consensus after '' @
                 digits10 (MAX_ATTEMPTS_PER_STEP cfg) @ '' attempts.''))"

text \<open>
  The worker \<^verbatim>\<open>runMicroAgent\<close> is outside the engine: \<open>agent i\<close> is what its
  call number \<open>i\<close> of the step (counting from 0) resolves to; \<open>JNull\<close> is a flagged
  result.

  \<^verbatim>\<open>getConsensusResultSequential\<close>: the loop, from the tally and the attempt count
  reached so far.
\<close>

function seq_loop :: "config \<Rightarrow> (nat \<Rightarrow> json) \<Rightarrow> votes \<Rightarrow> nat \<Rightarrow> js_error + outcome" where
  "seq_loop cfg agent votes n =
     (if n < MAX_ATTEMPTS_PER_STEP cfg then
        let result = agent n; n' = n + 1 in
        if result = JNull then seq_loop cfg agent votes n'
        else
          let resultKey = canonicalStringify result;
              votes' = count_vote votes resultKey
          in (case winning cfg votes' of
                Some (leaderKey, margin) \<Rightarrow> decided leaderKey margin n'
              | None \<Rightarrow> seq_loop cfg agent votes' n')
      else unresolved cfg)"
  by pat_completeness auto
termination
  by (relation "measure (\<lambda>(cfg, agent, votes, n). MAX_ATTEMPTS_PER_STEP cfg - n)") auto

declare seq_loop.simps [simp del]

definition getConsensusResultSequential :: "config \<Rightarrow> (nat \<Rightarrow> json) \<Rightarrow> js_error + outcome" where
  "getConsensusResultSequential cfg agent = seq_loop cfg agent [] 0"

text \<open>
  \<^verbatim>\<open>getConsensusResultParallel\<close>. A batch launches \<open>batchSize\<close> calls at once, the
  calls number \<open>totalAttempts\<close> to \<open>totalAttempts + batchSize - 1\<close>.

  With early termination the promises are awaited in the order of their launch, and
  the check runs after each counted result. The inner \<^verbatim>\<open>for\<close> loop, over the number
  of promises left in the batch, either returns from the function or falls through
  with the tally and the attempt count.
\<close>

datatype batch_result = Return "js_error + outcome" | Continue votes nat

fun early_batch :: "config \<Rightarrow> (nat \<Rightarrow> json) \<Rightarrow> nat \<Rightarrow> votes \<Rightarrow> nat \<Rightarrow> batch_result" where
  "early_batch cfg agent 0 votes totalAttempts = Continue votes totalAttempts"
| "early_batch cfg agent (Suc promises) votes totalAttempts =
     (let totalAttempts' = totalAttempts + 1; result = agent totalAttempts in
      if result = JNull then early_batch cfg agent promises votes totalAttempts'
      else
        let resultKey = canonicalStringify result;
            votes' = count_vote votes resultKey
        in (case winning cfg votes' of
              Some (leaderKey, margin) \<Rightarrow> Return (decided leaderKey margin totalAttempts')
            | None \<Rightarrow> early_batch cfg agent promises votes' totalAttempts'))"

text \<open>
  Without early termination the whole batch is awaited, tallied in the order of
  launch, and the check runs once.
\<close>

definition tally_batch :: "votes \<Rightarrow> json list \<Rightarrow> votes" where
  "tally_batch votes results =
     foldl (\<lambda>votes result.
        if result = JNull then votes else count_vote votes (canonicalStringify result))
       votes results"

definition full_batch :: "config \<Rightarrow> (nat \<Rightarrow> json) \<Rightarrow> nat \<Rightarrow> votes \<Rightarrow> nat \<Rightarrow> batch_result" where
  "full_batch cfg agent batchSize votes totalAttempts =
     (let results = map agent [totalAttempts ..< totalAttempts + batchSize];
          totalAttempts' = totalAttempts + batchSize;
          votes' = tally_batch votes results
      in (case winning cfg votes' of
            Some (leaderKey, margin) \<Rightarrow> Return (decided leaderKey margin totalAttempts')
          | None \<Rightarrow> Continue votes' totalAttempts'))"

text \<open>
  The outer \<^verbatim>\<open>while\<close> loop. With \<^verbatim>\<open>BATCH_SIZE\<close> 0 a batch is empty and the loop
  never ends: the result \<open>None\<close> stands for a call that does not return.
\<close>

partial_function (option) par_loop ::
  "config \<Rightarrow> (nat \<Rightarrow> json) \<Rightarrow> votes \<Rightarrow> nat \<Rightarrow> (js_error + outcome) option" where
  "par_loop cfg agent votes totalAttempts =
     (if totalAttempts < MAX_ATTEMPTS_PER_STEP cfg then
        let remainingAttempts = MAX_ATTEMPTS_PER_STEP cfg - totalAttempts;
            batchSize = min (BATCH_SIZE cfg) remainingAttempts
        in (case (if EARLY_TERMINATION cfg
                  then early_batch cfg agent batchSize votes totalAttempts
                  else full_batch cfg agent batchSize votes totalAttempts) of
              Return r \<Rightarrow> Some r
            | Continue votes' totalAttempts' \<Rightarrow> par_loop cfg agent votes' totalAttempts')
      else Some (unresolved cfg))"

declare par_loop.simps [code]

definition getConsensusResultParallel ::
  "config \<Rightarrow> (nat \<Rightarrow> json) \<Rightarrow> (js_error + outcome) option" where
  "getConsensusResultParallel cfg agent = par_loop cfg agent [] 0"

definition getConsensusResult :: "config \<Rightarrow> (nat \<Rightarrow> json) \<Rightarrow> (js_error + outcome) option" where
  "getConsensusResult cfg agent =
     (if ENABLE_PARALLEL cfg then getConsensusResultParallel cfg agent
      else Some (getConsensusResultSequential cfg agent))"

text \<open>A finite list of worker results as a worker: afterwards every result is flagged.\<close>

definition ballots :: "json list \<Rightarrow> nat \<Rightarrow> json" where
  "ballots bs i = (if i < length bs then bs ! i else JNull)"

section \<open>The margin rule, stated on the sequence of worker results\<close>

text \<open>
  The count of a candidate (a canonical key) among the first \<open>n\<close> worker results, the
  flagged ones left out; the candidates seen so far; the count of the next-highest
  other candidate (0 when there is none); the margin of a candidate; and the
  condition that a candidate has votes and is ahead by \<open>K\<close>.
\<close>

definition tally_of :: "(nat \<Rightarrow> json) \<Rightarrow> nat \<Rightarrow> string \<Rightarrow> nat" where
  "tally_of agent n key =
     length (filter (\<lambda>i. agent i \<noteq> JNull \<and> canonicalStringify (agent i) = key) [0 ..< n])"

definition keys_seen :: "(nat \<Rightarrow> json) \<Rightarrow> nat \<Rightarrow> string list" where
  "keys_seen agent n =
     remdups (map (\<lambda>i. canonicalStringify (agent i)) (filter (\<lambda>i. agent i \<noteq> JNull) [0 ..< n]))"

definition runner_up :: "(nat \<Rightarrow> json) \<Rightarrow> nat \<Rightarrow> string \<Rightarrow> nat" where
  "runner_up agent n w =
     Max (set (0 # map (tally_of agent n) (filter (\<lambda>c. c \<noteq> w) (keys_seen agent n))))"

definition lead_margin :: "(nat \<Rightarrow> json) \<Rightarrow> nat \<Rightarrow> string \<Rightarrow> int" where
  "lead_margin agent n w = int (tally_of agent n w) - int (runner_up agent n w)"

definition reaches :: "int \<Rightarrow> (nat \<Rightarrow> json) \<Rightarrow> nat \<Rightarrow> string \<Rightarrow> bool" where
  "reaches K agent n w = (0 < tally_of agent n w \<and> K \<le> lead_margin agent n w)"

definition accepted_votes :: "(nat \<Rightarrow> json) \<Rightarrow> nat \<Rightarrow> nat" where
  "accepted_votes agent n = length (filter (\<lambda>i. agent i \<noteq> JNull) [0 ..< n])"

text \<open>The entry list \<open>votes\<close> holds exactly the non-zero counts \<open>cnt\<close>.\<close>

definition votes_ok :: "votes \<Rightarrow> (string \<Rightarrow> nat) \<Rightarrow> bool" where
  "votes_ok votes cnt =
     (distinct (map fst votes) \<and>
      (\<forall>k. map_of votes k = (if cnt k = 0 then None else Some (cnt k))))"

text \<open>
  The number of attempts consumed when the \<open>n\<close>-th counted (non-flagged) result of a
  list of worker results has been received.
\<close>

fun attempt_of_counted :: "json list \<Rightarrow> nat \<Rightarrow> nat" where
  "attempt_of_counted [] n = 0"
| "attempt_of_counted (b # bs) n =
     (if n = 0 then 0 else Suc (attempt_of_counted bs (if b = JNull then n else n - 1)))"

section \<open>bin/maker.js: the step loop\<close>

text \<open>The state is an object, kept as its list of entries.\<close>

type_synonym state = "(string \<times> json) list"

text \<open>
  \<^verbatim>\<open>state.history || []\<close> takes the left operand when it is truthy.
  \<^verbatim>\<open>[...previousHistory, value]\<close> iterates over an array or over the characters of
  a string, and throws a TypeError on any other value.
\<close>

fun truthy :: "json \<Rightarrow> bool" where
  "truthy JNull = False"
| "truthy (JBool b) = b"
| "truthy (JNum i) = (i \<noteq> 0)"
| "truthy (JStr s) = (s \<noteq> [])"
| "truthy (JArr xs) = True"
| "truthy (JObj kvs) = True"

fun iterate :: "json \<Rightarrow> js_error + json list" where
  "iterate (JArr xs) = Inr xs"
| "iterate (JStr s) = Inr (map (\<lambda>c. JStr [c]) s)"
| "iterate _ = Inl TypeError"

text \<open>\<^verbatim>\<open>.slice(-5)\<close>: the last five elements, or all of them when there are fewer.\<close>

definition slice_last :: "nat \<Rightarrow> 'a list \<Rightarrow> 'a list" where
  "slice_last k xs = drop (length xs - k) xs"

text \<open>
  \<^verbatim>\<open>
  const previousHistory = state.history || [];
  const updatedHistory = [...previousHistory, value].slice(-5);
  if (typeof value === 'object' && value !== null && !Array.isArray(value)) {
    state = { ...state, ...value, history: updatedHistory };
  } else {
    state = { ...state, current_value: value, history: updatedHistory };
  }
  \<close>
\<close>

definition merge_state :: "state \<Rightarrow> json \<Rightarrow> js_error + state" where
  "merge_state state val =
     (let previousHistory =
            (case map_of state ''history'' of
               None \<Rightarrow> JArr []
             | Some h \<Rightarrow> if truthy h then h else JArr [])
      in case iterate previousHistory of
           Inl err \<Rightarrow> Inl err
         | Inr items \<Rightarrow>
             let updatedHistory = JArr (slice_last 5 (items @ [val])) in
             (case val of
                JObj props \<Rightarrow>
                  Inr (obj_set (spread (spread [] state) props) ''history'' updatedHistory)
              | _ \<Rightarrow>
                  Inr (obj_set (obj_set (spread [] state) ''current_value'' val)
                         ''history'' updatedHistory)))"

text \<open>
  What the run writes: the spinner of a step when it starts
  (\<^verbatim>\<open>Step ${i + 1}/${steps.length}: ${step}\<close>), its success line
  (\<^verbatim>\<open>Step ${i + 1} Complete: ${valStr}${kInfo}\<close>, the margin shown in DEV_MODE only), its
  failure line (\<^verbatim>\<open>Step ${i + 1} Failed: ${error.message}\<close>), the details printed in
  DEV_MODE, and the final result. The text that \<^verbatim>\<open>onVote\<close> puts on the spinner while
  a step is voting is not recorded.
\<close>

datatype event =
    Step_started nat nat string
  | Step_complete nat json "int option"
  | Step_failed nat js_error
  | Dev_full_result json
  | Dev_step string
  | Dev_state state
  | Dev_error js_error
  | Final_result state

datatype exit_status = Completed | Exit_1

text \<open>
  The \<^verbatim>\<open>catch\<close> block of a step:
  \<^verbatim>\<open>
  stepSpinner.fail(chalk.red(`Step ${i + 1} Failed: ${error.message}`));
  if (CONFIG.DEV_MODE) {
    console.error("\n[DEV MODE] Step Failure Details:");
    console.error("Step:", step);
    console.error("State:", JSON.stringify(state, null, 2));
    console.error("Error:", error);
    if (error.stack) console.error("Stack:", error.stack);
  }
  process.exit(1);
  \<close>
\<close>

definition step_failure :: "config \<Rightarrow> nat \<Rightarrow> string \<Rightarrow> state \<Rightarrow> js_error \<Rightarrow> event list" where
  "step_failure cfg i step state err =
     Step_failed (i + 1) err #
     (if DEV_MODE cfg then [Dev_step step, Dev_state state, Dev_error err] else [])"

definition step_success :: "config \<Rightarrow> nat \<Rightarrow> outcome \<Rightarrow> event list" where
  "step_success cfg i out =
     Step_complete (i + 1) (outcome_value out) (if DEV_MODE cfg then Some (voteMargin out) else None) #
     (if DEV_MODE cfg then [Dev_full_result (outcome_value out)] else [])"

text \<open>
  The loop over the steps, from step number \<open>i\<close> (counting from 0) with the steps that
  remain. \<open>worker i state step\<close> gives the results of the worker calls of step \<open>i\<close>.
  The result is what was written, how the process ended, and the state it ended with.
  A thrown error, of the engine or of the merge, is caught by the step's
  \<^verbatim>\<open>catch\<close> block, which ends the process.
\<close>

fun run_steps ::
  "config \<Rightarrow> (nat \<Rightarrow> state \<Rightarrow> string \<Rightarrow> nat \<Rightarrow> json) \<Rightarrow> nat \<Rightarrow> nat \<Rightarrow> state \<Rightarrow> string list
     \<Rightarrow> (event list \<times> exit_status \<times> state) option" where
  "run_steps cfg worker nsteps i state [] = Some ([Final_result state], Completed, state)"
| "run_steps cfg worker nsteps i state (step # rest) =
     (case getConsensusResult cfg (worker i state step) of
        None \<Rightarrow> None
      | Some (Inl err) \<Rightarrow>
          Some (Step_started (i + 1) nsteps step # step_failure cfg i step state err, Exit_1, state)
      | Some (Inr out) \<Rightarrow>
          (case merge_state state (outcome_value out) of
             Inl err \<Rightarrow>
               Some (Step_started (i + 1) nsteps step # step_failure cfg i step state err,
                     Exit_1, state)
           | Inr state' \<Rightarrow>
               map_option
                 (\<lambda>(events, ending). (Step_started (i + 1) nsteps step # step_success cfg i out @ events, ending))
                 (run_steps cfg worker nsteps (i + 1) state' rest)))"

text \<open>
  The action of the command, after the planner has decomposed the prompt into
  \<open>steps\<close>:
  \<^verbatim>\<open>let state = { original_task: prompt, history: [] };\<close>
\<close>

definition initial_state :: "string \<Rightarrow> state" where
  "initial_state prompt = [(''original_task'', JStr prompt), (''history'', JArr [])]"

definition maker ::
  "config \<Rightarrow> (nat \<Rightarrow> state \<Rightarrow> string \<Rightarrow> nat \<Rightarrow> json) \<Rightarrow> string \<Rightarrow> string list
     \<Rightarrow> (event list \<times> exit_status \<times> state) option" where
  "maker cfg worker prompt steps = run_steps cfg worker (length steps) 0 (initial_state prompt) steps"

text \<open>The values of the completed steps, in order.\<close>

fun step_outputs :: "event list \<Rightarrow> json list" where
  "step_outputs [] = []"
| "step_outputs (Step_complete i v m # events) = v # step_outputs events"
| "step_outputs (_ # events) = step_outputs events"

text \<open>A step output that is an object with a property \<^verbatim>\<open>original_task\<close>.\<close>

fun has_property :: "string \<Rightarrow> json \<Rightarrow> bool" where
  "has_property k (JObj props) = (k \<in> fst ` set props)"
| "has_property k _ = False"

section \<open>rate-limiter.js\<close>

text \<open>
  The fields of a \<^verbatim>\<open>RateLimiter\<close>, and two things the class does not store: the log
  \<open>started\<close> of the tasks whose \<^verbatim>\<open>task.fn()\<close> was called, each with the timestamp
  recorded for it, and \<open>sleeping\<close>, the time at which the timer of a pending
  \<^verbatim>\<open>await\<close> is due. Time is in milliseconds. What \<^verbatim>\<open>Date.now()\<close> returns is
  given with each call from outside; it does not change during the synchronous run
  the call starts.
\<close>

record 'a limiter =
  maxRpm :: nat
  queue :: "'a list"
  processing :: bool
  requestTimestamps :: "int list"
  started :: "('a \<times> int) list"
  sleeping :: "int option"

definition RateLimiter :: "nat \<Rightarrow> 'a limiter" where
  "RateLimiter n =
     \<lparr>maxRpm = n, queue = [], processing = False, requestTimestamps = [], started = [],
      sleeping = None\<rparr>"

text \<open>
  The \<^verbatim>\<open>while\<close> loop of \<^verbatim>\<open>processQueue\<close>, run at time \<open>t\<close> until the queue is
  empty or the loop awaits its timer:
  \<^verbatim>\<open>
  while (this.queue.length > 0) {
      const now = Date.now();
      this.requestTimestamps = this.requestTimestamps.filter(t => now - t < 60000);
      if (this.requestTimestamps.length < this.maxRpm) {
          const task = this.queue.shift();
          this.requestTimestamps.push(Date.now());
          task.fn().then(task.resolve).catch(task.reject);
      } else {
          const oldestCall = this.requestTimestamps[0];
          const timeToWait = 60000 - (now - oldestCall) + 100;
          await new Promise(resolve => setTimeout(resolve, timeToWait));
      }
  }
  this.processing = false;
  \<close>
  With \<^verbatim>\<open>maxRpm\<close> 0 and no timestamp, \<^verbatim>\<open>oldestCall\<close> is undefined and the delay is
  not a number, which a timer takes as 1 millisecond. The tasks that \<^verbatim>\<open>agent.js\<close>
  submits are async functions: \<^verbatim>\<open>task.fn()\<close> returns a promise and the loop goes on.
  \<^verbatim>\<open>getAvailableRequests\<close> and \<^verbatim>\<open>canMakeRequests\<close> are called nowhere in the
  repository and are not among the calls below.
\<close>

function process_loop :: "int \<Rightarrow> 'a limiter \<Rightarrow> 'a limiter" where
  "process_loop t s =
     (case queue s of
        [] \<Rightarrow> s\<lparr>processing := False\<rparr>
      | task # rest \<Rightarrow>
          let now = t;
              recent = filter (\<lambda>x. now - x < 60000) (requestTimestamps s)
          in if length recent < maxRpm s
             then process_loop t
                    (s\<lparr>queue := rest, requestTimestamps := recent @ [t],
                       started := started s @ [(task, t)]\<rparr>)
             else
               let timeToWait =
                     (case recent of
                        [] \<Rightarrow> 1
                      | oldestCall # _ \<Rightarrow> 60000 - (now - oldestCall) + 100)
               in s\<lparr>requestTimestamps := recent, sleeping := Some (t + timeToWait)\<rparr>)"
  by pat_completeness auto
termination
  by (relation "measure (\<lambda>(t, s). length (queue s))") auto

declare process_loop.simps [simp del]

text \<open>
  \<^verbatim>\<open>processQueue\<close> returns at once when the loop is active; \<^verbatim>\<open>throttle\<close> pushes the
  task and calls it; the timer of a sleeping loop, fired at time \<open>t\<close>, resumes the loop.
\<close>

definition processQueue :: "int \<Rightarrow> 'a limiter \<Rightarrow> 'a limiter" where
  "processQueue t s = (if processing s then s else process_loop t (s\<lparr>processing := True\<rparr>))"

definition throttle :: "int \<Rightarrow> 'a \<Rightarrow> 'a limiter \<Rightarrow> 'a limiter" where
  "throttle t task s = processQueue t (s\<lparr>queue := queue s @ [task]\<rparr>)"

definition timer_fires :: "int \<Rightarrow> 'a limiter \<Rightarrow> 'a limiter" where
  "timer_fires t s =
     (case sleeping s of
        None \<Rightarrow> s
      | Some due \<Rightarrow> if t < due then s else process_loop t (s\<lparr>sleeping := None\<rparr>))"

datatype 'a call = Throttle int 'a | Timer int

fun call_time :: "'a call \<Rightarrow> int" where
  "call_time (Throttle t task) = t"
| "call_time (Timer t) = t"

fun perform :: "'a limiter \<Rightarrow> 'a call \<Rightarrow> 'a limiter" where
  "perform s (Throttle t task) = throttle t task s"
| "perform s (Timer t) = timer_fires t s"

definition run_calls :: "'a limiter \<Rightarrow> 'a call list \<Rightarrow> 'a limiter" where
  "run_calls s calls = foldl perform s calls"

text \<open>The tasks submitted by a list of calls, in order.\<close>

fun submitted :: "'a call list \<Rightarrow> 'a list" where
  "submitted [] = []"
| "submitted (Throttle t task # calls) = task # submitted calls"
| "submitted (Timer t # calls) = submitted calls"

text \<open>The admission timestamps inside the window of 60 seconds that starts at \<open>a\<close>.\<close>

definition in_window :: "int \<Rightarrow> int list \<Rightarrow> int list" where
  "in_window a stamps = filter (\<lambda>x. a \<le> x \<and> x < a + 60000) stamps"

text \<open>The window is under capacity at time \<open>t\<close>: what \<^verbatim>\<open>getAvailableRequests\<close> checks.\<close>

definition under_capacity :: "int \<Rightarrow> 'a limiter \<Rightarrow> bool" where
  "under_capacity t s = (length (filter (\<lambda>x. t - x < 60000) (requestTimestamps s)) < maxRpm s)"

text \<open>
  What holds of a limiter between two calls, the last of them at time \<open>t\<close> or before:
  the recorded timestamps are the admissions that were recent at the last pruning, no
  window holds more than \<open>maxRpm\<close> admissions, an idle limiter has an empty queue, and
  only an active loop sleeps.
\<close>

definition limiter_ok :: "int \<Rightarrow> 'a limiter \<Rightarrow> bool" where
  "limiter_ok t s \<longleftrightarrow>
     (\<exists>c\<le>t. requestTimestamps s = filter (\<lambda>x. c - x < 60000) (map snd (started s))) \<and>
     (\<forall>a. length (in_window a (map snd (started s))) \<le> maxRpm s) \<and>
     (\<not> processing s \<longrightarrow> queue s = []) \<and>
     (sleeping s \<noteq> None \<longrightarrow> processing s)"

section \<open>Decoding a canonical key: notions\<close>








section \<open>Properties\<close>

subsection \<open>Canonical encoder: key-order invariance\<close>

lemma sorted_keys_unique:
  fixes ks ks' :: "string list"
  assumes "distinct ks" "distinct ks'" "set ks = set ks'"
  shows "sort ks = sort ks'"
  by (rule sorted_distinct_set_unique) (use assms in \<open>simp_all add: distinct_sort\<close>)

lemma map_of_key_defined:
  "k \<in> set (map fst kvs) \<Longrightarrow> \<exists>v. map_of kvs k = Some v"
  by (induction kvs) auto

text \<open>
  Claim C6. Structurally equal values (same scalars, same array elements in order,
  same object key/value pairs whatever the order of the keys) have the same canonical
  encoding.
\<close>

theorem canonicalStringify_key_order_invariant:
  "json_equiv a b \<Longrightarrow> canonicalStringify a = canonicalStringify b"
proof (induction rule: json_equiv.induct)
  case (equiv_arr xs ys)
  then have "map canonicalStringify xs = map canonicalStringify ys"
    by (induction rule: list_all2_induct) simp_all
  then show ?case by simp
next
  case (equiv_obj xs ys)
  have keys: "sort (map fst xs) = sort (map fst ys)"
    using equiv_obj.hyps by (intro sorted_keys_unique)
  have enc: "(case map_of xs k of Some v \<Rightarrow> canonicalStringify v | None \<Rightarrow> ''undefined'')
      = (case map_of ys k of Some v \<Rightarrow> canonicalStringify v | None \<Rightarrow> ''undefined'')"
    if "k \<in> set (sort (map fst xs))" for k
  proof -
    from that obtain v where v: "map_of xs k = Some v"
      using map_of_key_defined [of k xs] by auto
    from that equiv_obj.hyps(3) obtain w where w: "map_of ys k = Some w"
      using map_of_key_defined [of k ys] by auto
    from equiv_obj.IH v w have "canonicalStringify v = canonicalStringify w" by blast
    with v w show ?thesis by simp
  qed
  have "map (\<lambda>key. [CHR 0x22] @ key @ [CHR 0x22] @ '':'' @
               (case map_of xs key of Some v \<Rightarrow> canonicalStringify v | None \<Rightarrow> ''undefined''))
            (sort (map fst xs))
      = map (\<lambda>key. [CHR 0x22] @ key @ [CHR 0x22] @ '':'' @
               (case map_of ys key of Some v \<Rightarrow> canonicalStringify v | None \<Rightarrow> ''undefined''))
            (sort (map fst xs))"
    by (rule map_cong [OF refl]) (simp only: enc)
  then show ?case
    by (simp only: canonicalStringify.simps Let_def keys [symmetric])
qed simp_all

theorem canonicalStringify_key_order_invariant_witness:
  "json_equiv (JObj [(''b'', JNum 2), (''a'', JNum 1)]) (JObj [(''a'', JNum 1), (''b'', JNum 2)])
   \<and> canonicalStringify (JObj [(''b'', JNum 2), (''a'', JNum 1)])
     = canonicalStringify (JObj [(''a'', JNum 1), (''b'', JNum 2)])"
proof -
  have e: "json_equiv (JObj [(''b'', JNum 2), (''a'', JNum 1)]) (JObj [(''a'', JNum 1), (''b'', JNum 2)])"
    by (rule equiv_obj) (auto intro: json_equiv.intros)
  show ?thesis
    using e canonicalStringify_key_order_invariant [OF e] by simp
qed

subsection \<open>Objects as entry lists\<close>

lemma obj_insert_set: "set (obj_insert obj k v) = insert (k, v) (set obj)"
  by (induction obj) (auto split: if_splits)

lemma obj_insert_distinct:
  "k \<notin> fst ` set obj \<Longrightarrow> distinct (map fst obj) \<Longrightarrow> distinct (map fst (obj_insert obj k v))"
proof (induction obj)
  case Nil
  then show ?case by simp
next
  case (Cons e obj)
  obtain k' v' where e: "e = (k', v')" by (cases e)
  from Cons.prems have k: "k \<noteq> k'" "k \<notin> fst ` set obj" and d: "k' \<notin> fst ` set obj" "distinct (map fst obj)"
    by (auto simp: e)
  from Cons.IH [OF k(2) d(2)] have IH: "distinct (map fst (obj_insert obj k v))" .
  have "k' \<notin> fst ` set (obj_insert obj k v)"
    using k(1) d(1) by (simp add: obj_insert_set)
  with IH k d show ?case by (simp add: e)
qed

lemma obj_insert_lookup:
  "k \<notin> fst ` set obj \<Longrightarrow> map_of (obj_insert obj k v) x = (if x = k then Some v else map_of obj x)"
proof (induction obj arbitrary: x)
  case Nil
  then show ?case by simp
next
  case (Cons e obj)
  obtain k' v' where e: "e = (k', v')" by (cases e)
  from Cons.prems have k: "k \<noteq> k'" "k \<notin> fst ` set obj"
    by (auto simp: e)
  from Cons.IH [OF k(2)] k(1) show ?case by (auto simp: e)
qed

lemma obj_update_keys:
  "map fst (map (\<lambda>(k', v'). if k' = k then (k', v) else (k', v')) obj) = map fst obj"
  by (induction obj) auto

lemma obj_update_lookup:
  "map_of (map (\<lambda>(k', v'). if k' = k then (k', v) else (k', v')) obj) x =
     (if x = k \<and> map_of obj k \<noteq> None then Some v else map_of obj x)"
proof (induction obj arbitrary: x)
  case Nil
  then show ?case by simp
next
  case (Cons e obj)
  obtain k' v' where e: "e = (k', v')" by (cases e)
  show ?case
    using Cons.IH by (auto simp: e)
qed

lemma obj_set_distinct:
  assumes "distinct (map fst obj)"
  shows "distinct (map fst (obj_set obj k v))"
proof (cases "k \<in> fst ` set obj")
  case True
  then have "obj_set obj k v = map (\<lambda>(k', v'). if k' = k then (k', v) else (k', v')) obj"
    by (simp add: obj_set_def)
  with assms show ?thesis by (simp only: obj_update_keys)
next
  case False
  then have "obj_set obj k v = obj_insert obj k v"
    by (simp add: obj_set_def)
  with obj_insert_distinct [OF False assms] show ?thesis by simp
qed

lemma obj_set_lookup: "map_of (obj_set obj k v) = (map_of obj)(k \<mapsto> v)"
proof (cases "k \<in> fst ` set obj")
  case True
  then have "obj_set obj k v = map (\<lambda>(k', v'). if k' = k then (k', v) else (k', v')) obj"
    by (simp add: obj_set_def)
  moreover from True have "map_of obj k \<noteq> None"
    by (simp add: map_of_eq_None_iff)
  ultimately show ?thesis by (simp add: fun_eq_iff obj_update_lookup)
next
  case False
  then have "obj_set obj k v = obj_insert obj k v"
    by (simp add: obj_set_def)
  with obj_insert_lookup [OF False] show ?thesis by (simp add: fun_eq_iff)
qed

lemma obj_set_keys: "fst ` set (obj_set obj k v) = insert k (fst ` set obj)"
proof -
  have "dom (map_of (obj_set obj k v)) = insert k (dom (map_of obj))"
    by (simp add: obj_set_lookup)
  then show ?thesis by (simp only: dom_map_of_conv_image_fst)
qed

subsection \<open>The tally\<close>

lemma votes_ok_empty: "votes_ok [] (\<lambda>_. 0)"
  by (simp add: votes_ok_def)

lemma votes_ok_count:
  assumes "votes_ok votes cnt"
  shows "votes_ok (count_vote votes k) (cnt(k := Suc (cnt k)))"
proof -
  have "(case map_of votes k of Some c \<Rightarrow> c | None \<Rightarrow> 0) = cnt k"
    using assms by (simp add: votes_ok_def)
  then have "count_vote votes k = obj_set votes k (Suc (cnt k))"
    by (simp add: count_vote_def)
  with assms show ?thesis
    by (simp add: votes_ok_def obj_set_distinct obj_set_lookup)
qed

lemma tally_of_0: "tally_of agent 0 = (\<lambda>_. 0)"
  by (simp add: tally_of_def fun_eq_iff)

lemma tally_of_Suc_flagged: "agent n = JNull \<Longrightarrow> tally_of agent (Suc n) = tally_of agent n"
  by (simp add: tally_of_def fun_eq_iff)

lemma tally_of_Suc_counted:
  "agent n \<noteq> JNull \<Longrightarrow>
   tally_of agent (Suc n) =
     (tally_of agent n)(canonicalStringify (agent n) :=
        Suc (tally_of agent n (canonicalStringify (agent n))))"
  by (simp add: tally_of_def fun_eq_iff)

lemma keys_seen_iff: "c \<in> set (keys_seen agent n) \<longleftrightarrow> 0 < tally_of agent n c"
  by (auto simp: keys_seen_def tally_of_def filter_empty_conv)

lemma runner_up_ge: "c \<noteq> w \<Longrightarrow> tally_of agent n c \<le> runner_up agent n w"
proof (cases "tally_of agent n c = 0")
  case True
  then show ?thesis by simp
next
  case False
  assume "c \<noteq> w"
  with False have "tally_of agent n c \<in> set (0 # map (tally_of agent n) (filter (\<lambda>c. c \<noteq> w) (keys_seen agent n)))"
    by (simp add: keys_seen_iff)
  then show ?thesis
    unfolding runner_up_def by (intro Max_ge) simp_all
qed

lemma runner_up_attained:
  "runner_up agent n w = 0 \<or> (\<exists>c. c \<noteq> w \<and> tally_of agent n c = runner_up agent n w)"
proof -
  have "runner_up agent n w \<in> set (0 # map (tally_of agent n) (filter (\<lambda>c. c \<noteq> w) (keys_seen agent n)))"
    unfolding runner_up_def by (intro Max_in) simp_all
  then show ?thesis by auto
qed

lemma runner_up_unique:
  assumes "\<forall>c. c \<noteq> w \<longrightarrow> tally_of agent n c \<le> r"
    and "r = 0 \<or> (\<exists>c. c \<noteq> w \<and> tally_of agent n c = r)"
  shows "runner_up agent n w = r"
proof (rule antisym)
  from runner_up_attained [of agent n w] assms(1) show "runner_up agent n w \<le> r"
    by auto
  from assms(2) runner_up_ge [of _ w agent n] show "r \<le> runner_up agent n w"
    by auto
qed

subsection \<open>The decision check\<close>

lemma sortedResults_facts:
  "set (sortedResults votes) = set votes"
  "distinct (map fst votes) \<Longrightarrow> distinct (map fst (sortedResults votes))"
  "sorted (map (\<lambda>e. - int (snd e)) (sortedResults votes))"
proof -
  show "set (sortedResults votes) = set votes"
    by (simp add: sortedResults_def)
  show "sorted (map (\<lambda>e. - int (snd e)) (sortedResults votes))"
    unfolding sortedResults_def by (rule sorted_sort_key)
  assume d: "distinct (map fst votes)"
  then show "distinct (map fst (sortedResults votes))"
    by (simp add: sortedResults_def distinct_map)
qed

lemma leader_facts:
  assumes ok: "votes_ok votes (tally_of agent n)"
    and srt: "sortedResults votes = l # others"
  shows "snd l = tally_of agent n (fst l)"
    and "0 < snd l"
    and "tally_of agent n c \<le> snd l"
    and "(case others of [] \<Rightarrow> 0 | r # _ \<Rightarrow> snd r) = runner_up agent n (fst l)"
proof -
  let ?cnt = "tally_of agent n"
  from ok have d: "distinct (map fst votes)"
    and lk: "\<And>k. map_of votes k = (if ?cnt k = 0 then None else Some (?cnt k))"
    by (simp_all add: votes_ok_def)
  have mem: "(k, c) \<in> set votes \<longleftrightarrow> c = ?cnt k \<and> 0 < c" for k c
  proof -
    have "(k, c) \<in> set votes \<longleftrightarrow> map_of votes k = Some c"
      using map_of_eq_Some_iff [OF d, of k c] by simp
    then show ?thesis
      unfolding lk by auto
  qed
  have set_eq: "set (l # others) = set votes"
    using sortedResults_facts(1) [of votes] srt by simp
  have dist: "distinct (map fst (l # others))"
    using sortedResults_facts(2) [OF d] srt by simp
  have srtd: "sorted (map (\<lambda>e. - int (snd e)) (l # others))"
    using sortedResults_facts(3) [of votes] srt by simp
  have l_in: "(fst l, snd l) \<in> set votes"
    using set_eq by auto
  then show l_cnt: "snd l = ?cnt (fst l)" and l_pos: "0 < snd l"
    using mem [of "fst l" "snd l"] by simp_all
  have others_le: "snd e \<le> snd l" if "e \<in> set others" for e
    using srtd that by auto
  have others_mem: "(k, ?cnt k) \<in> set others" if "k \<noteq> fst l" "0 < ?cnt k" for k
  proof -
    from that(2) have "(k, ?cnt k) \<in> set (l # others)"
      unfolding set_eq by (simp add: mem)
    with that(1) show ?thesis by auto
  qed
  show "?cnt c \<le> snd l"
  proof (cases "c = fst l \<or> ?cnt c = 0")
    case True
    then show ?thesis using l_cnt by auto
  next
    case False
    then have "(c, ?cnt c) \<in> set others" by (intro others_mem) auto
    from others_le [OF this] show ?thesis by simp
  qed
  show "(case others of [] \<Rightarrow> 0 | r # _ \<Rightarrow> snd r) = runner_up agent n (fst l)"
  proof (cases others)
    case Nil
    have "?cnt k = 0" if "k \<noteq> fst l" for k
    proof (rule ccontr)
      assume "?cnt k \<noteq> 0"
      with that others_mem [of k] Nil show False by simp
    qed
    then have "runner_up agent n (fst l) = 0"
      by (intro runner_up_unique) auto
    with Nil show ?thesis by simp
  next
    case (Cons r rest)
    have r_in: "(fst r, snd r) \<in> set votes"
      using set_eq Cons by auto
    have r_ne: "fst r \<noteq> fst l"
      using dist Cons by auto
    have r_cnt: "snd r = ?cnt (fst r)"
      using r_in mem [of "fst r" "snd r"] by simp
    have le_r: "snd e \<le> snd r" if "e \<in> set others" for e
      using srtd that Cons by auto
    have "?cnt k \<le> snd r" if "k \<noteq> fst l" for k
    proof (cases "?cnt k = 0")
      case True
      then show ?thesis by simp
    next
      case False
      with that have "(k, ?cnt k) \<in> set others" by (intro others_mem) auto
      from le_r [OF this] show ?thesis by simp
    qed
    then have "runner_up agent n (fst l) = snd r"
      using r_ne r_cnt by (intro runner_up_unique) auto
    with Cons show ?thesis by simp
  qed
qed

lemma sortedResults_Nil:
  assumes "votes_ok votes (tally_of agent n)" and "sortedResults votes = []"
  shows "tally_of agent n c = 0"
proof -
  from assms(2) have "votes = []"
    using sortedResults_facts(1) [of votes] by simp
  with assms(1) show ?thesis
    by (simp add: votes_ok_def split: if_splits)
qed

lemma winning_sound:
  assumes "votes_ok votes (tally_of agent n)" and "winning cfg votes = Some (w, m)"
  shows "reaches (VOTE_MARGIN_K cfg) agent n w \<and> m = lead_margin agent n w"
proof (cases "sortedResults votes")
  case Nil
  with assms(2) show ?thesis by (simp add: winning_def)
next
  case (Cons l others)
  note lf = leader_facts [OF assms(1) Cons]
  from assms(2) Cons have w: "w = fst l"
    and m: "m = int (snd l) - int (case others of [] \<Rightarrow> 0 | r # _ \<Rightarrow> snd r)"
    and k: "VOTE_MARGIN_K cfg \<le> m"
    by (auto simp: winning_def Let_def split: if_splits)
  from m have "m = lead_margin agent n w"
    unfolding lead_margin_def w lf(4) lf(1) [symmetric] by simp
  with k lf(1,2) w show ?thesis by (simp add: reaches_def)
qed

lemma winning_complete:
  assumes "votes_ok votes (tally_of agent n)" and "reaches (VOTE_MARGIN_K cfg) agent n w"
  shows "winning cfg votes \<noteq> None"
proof (cases "sortedResults votes")
  case Nil
  from sortedResults_Nil [OF assms(1) Nil, of w] assms(2) show ?thesis
    by (simp add: reaches_def)
next
  case (Cons l others)
  note lf = leader_facts [OF assms(1) Cons]
  let ?m = "int (snd l) - int (case others of [] \<Rightarrow> 0 | r # _ \<Rightarrow> snd r)"
  have m: "?m = lead_margin agent n (fst l)"
    unfolding lead_margin_def lf(4) lf(1) [symmetric] by simp
  have "VOTE_MARGIN_K cfg \<le> ?m"
  proof (cases "w = fst l")
    case True
    with assms(2) m show ?thesis by (simp add: reaches_def)
  next
    case False
    then have "tally_of agent n (fst l) \<le> runner_up agent n w"
      by (intro runner_up_ge) simp
    moreover have "tally_of agent n w \<le> snd l" by (rule lf(3))
    ultimately have "lead_margin agent n w \<le> 0"
      using lf(1) by (simp add: lead_margin_def)
    with assms(2) have "VOTE_MARGIN_K cfg \<le> 0" by (simp add: reaches_def)
    moreover have "runner_up agent n (fst l) \<le> snd l"
    proof (cases "runner_up agent n (fst l) = 0")
      case True
      then show ?thesis by simp
    next
      case False
      with runner_up_attained [of agent n "fst l"]
      obtain c where "tally_of agent n c = runner_up agent n (fst l)" by auto
      with lf(3) [of c] show ?thesis by simp
    qed
    ultimately show ?thesis
      unfolding m lead_margin_def using lf(1) by simp
  qed
  with Cons show ?thesis by (simp add: winning_def Let_def)
qed

subsection \<open>The margin rule depends on the counts only\<close>

lemma runner_up_cong:
  assumes "tally_of agent n = tally_of agent' n'"
  shows "runner_up agent n w = runner_up agent' n' w"
proof (rule runner_up_unique)
  show "\<forall>c. c \<noteq> w \<longrightarrow> tally_of agent n c \<le> runner_up agent' n' w"
    using runner_up_ge [of _ w agent' n'] assms by simp
  show "runner_up agent' n' w = 0 \<or> (\<exists>c. c \<noteq> w \<and> tally_of agent n c = runner_up agent' n' w)"
    using runner_up_attained [of agent' n' w] assms by simp
qed

lemma reaches_cong:
  "tally_of agent n = tally_of agent' n' \<Longrightarrow> reaches K agent n w = reaches K agent' n' w"
  using runner_up_cong [of agent n agent' n' w] by (simp add: reaches_def lead_margin_def)

lemma lead_margin_cong:
  "tally_of agent n = tally_of agent' n' \<Longrightarrow> lead_margin agent n w = lead_margin agent' n' w"
  using runner_up_cong [of agent n agent' n' w] by (simp add: lead_margin_def)

lemma reaches_iff:
  "reaches K agent n w \<longleftrightarrow>
     0 < tally_of agent n w \<and> K \<le> int (tally_of agent n w) \<and>
     (\<forall>c. c \<noteq> w \<longrightarrow> K \<le> int (tally_of agent n w) - int (tally_of agent n c))"
proof
  assume r: "reaches K agent n w"
  then have "0 < tally_of agent n w" and k: "K \<le> int (tally_of agent n w) - int (runner_up agent n w)"
    by (simp_all add: reaches_def lead_margin_def)
  moreover have "K \<le> int (tally_of agent n w) - int (tally_of agent n c)" if "c \<noteq> w" for c
    using runner_up_ge [OF that, of agent n] k by simp
  ultimately show "0 < tally_of agent n w \<and> K \<le> int (tally_of agent n w) \<and>
     (\<forall>c. c \<noteq> w \<longrightarrow> K \<le> int (tally_of agent n w) - int (tally_of agent n c))"
    by auto
next
  assume a: "0 < tally_of agent n w \<and> K \<le> int (tally_of agent n w) \<and>
     (\<forall>c. c \<noteq> w \<longrightarrow> K \<le> int (tally_of agent n w) - int (tally_of agent n c))"
  have "K \<le> int (tally_of agent n w) - int (runner_up agent n w)"
    using runner_up_attained [of agent n w] a by auto
  with a show "reaches K agent n w"
    by (simp add: reaches_def lead_margin_def)
qed

lemma deciding_ballot:
  assumes counted: "agent n \<noteq> JNull"
    and r: "reaches K agent (Suc n) w"
    and none: "\<forall>c. \<not> reaches K agent n c"
  shows "w = canonicalStringify (agent n)"
proof (rule ccontr)
  assume ne: "w \<noteq> canonicalStringify (agent n)"
  have t: "tally_of agent (Suc n) c =
      (if c = canonicalStringify (agent n) then Suc (tally_of agent n c) else tally_of agent n c)" for c
    using tally_of_Suc_counted [of agent n, OF counted] by simp
  have tw: "tally_of agent (Suc n) w = tally_of agent n w"
    using ne by (simp add: t)
  have tc: "tally_of agent n c \<le> tally_of agent (Suc n) c" for c
    by (simp add: t)
  from r have a: "0 < tally_of agent n w" "K \<le> int (tally_of agent n w)"
    and b: "\<And>c. c \<noteq> w \<Longrightarrow> K \<le> int (tally_of agent n w) - int (tally_of agent (Suc n) c)"
    unfolding reaches_iff [of K agent "Suc n" w] tw by simp_all
  have "K \<le> int (tally_of agent n w) - int (tally_of agent n c)" if "c \<noteq> w" for c
    using b [OF that] tc [of c] by linarith
  with a have "reaches K agent n w"
    unfolding reaches_iff [of K agent n w] by simp
  with none show False by simp
qed

subsection \<open>The sequential loop\<close>

lemma seq_loop_decides:
  assumes "votes_ok votes (tally_of agent n)"
    and "n < j" and "j \<le> MAX_ATTEMPTS_PER_STEP cfg"
    and "reaches (VOTE_MARGIN_K cfg) agent j w"
    and "\<forall>i. n \<le> i \<and> i < j \<longrightarrow> (\<forall>c. \<not> reaches (VOTE_MARGIN_K cfg) agent i c)"
  shows "seq_loop cfg agent votes n = decided w (lead_margin agent j w) j"
  using assms(1,2,5)
proof (induction k \<equiv> "j - n" arbitrary: n votes)
  case 0
  then show ?case by simp
next
  case (Suc k)
  from Suc.prems(2) assms(3) have lt: "n < MAX_ATTEMPTS_PER_STEP cfg" by simp
  from Suc.prems(3) Suc.prems(2) have none_n: "\<forall>c. \<not> reaches (VOTE_MARGIN_K cfg) agent n c"
    by simp
  show ?case
  proof (cases "agent n = JNull")
    case True
    note t = tally_of_Suc_flagged [of agent n, OF True]
    have "Suc n \<noteq> j"
    proof
      assume "Suc n = j"
      with assms(4) have "reaches (VOTE_MARGIN_K cfg) agent n w"
        using reaches_cong [OF t, of "VOTE_MARGIN_K cfg" w] by simp
      with none_n show False by simp
    qed
    with Suc.prems(2) have lt': "Suc n < j" by simp
    have "seq_loop cfg agent votes (Suc n) = decided w (lead_margin agent j w) j"
    proof (rule Suc.hyps(1))
      show "k = j - Suc n" using Suc.hyps(2) by simp
      show "votes_ok votes (tally_of agent (Suc n))" using Suc.prems(1) t by simp
      show "Suc n < j" by (rule lt')
      show "\<forall>i. Suc n \<le> i \<and> i < j \<longrightarrow> (\<forall>c. \<not> reaches (VOTE_MARGIN_K cfg) agent i c)"
        using Suc.prems(3) by simp
    qed
    then show ?thesis
      using True lt by (subst seq_loop.simps) simp
  next
    case False
    let ?votes' = "count_vote votes (canonicalStringify (agent n))"
    have ok': "votes_ok ?votes' (tally_of agent (Suc n))"
      using votes_ok_count [OF Suc.prems(1)] tally_of_Suc_counted [of agent n, OF False] by simp
    show ?thesis
    proof (cases "Suc n = j")
      case True
      with assms(4) have r: "reaches (VOTE_MARGIN_K cfg) agent (Suc n) w" by simp
      from winning_complete [OF ok' r] obtain w' m where win: "winning cfg ?votes' = Some (w', m)"
        by auto
      from winning_sound [OF ok' win]
      have r': "reaches (VOTE_MARGIN_K cfg) agent (Suc n) w'" and m: "m = lead_margin agent (Suc n) w'"
        by simp_all
      have "w = canonicalStringify (agent n)" "w' = canonicalStringify (agent n)"
        using deciding_ballot [OF False r none_n] deciding_ballot [OF False r' none_n] by simp_all
      then have "w' = w" by simp
      with win m True show ?thesis
        using False lt by (subst seq_loop.simps) (simp add: Let_def)
    next
      case ne: False
      with Suc.prems(2) have lt': "Suc n < j" by simp
      have win: "winning cfg ?votes' = None"
      proof (cases "winning cfg ?votes'")
        case None
        then show ?thesis .
      next
        case (Some p)
        obtain w' m where "p = (w', m)" by (cases p)
        with Some winning_sound [OF ok', of cfg w' m]
        have "reaches (VOTE_MARGIN_K cfg) agent (Suc n) w'" by simp
        with Suc.prems(3) lt' show ?thesis by auto
      qed
      have "seq_loop cfg agent ?votes' (Suc n) = decided w (lead_margin agent j w) j"
      proof (rule Suc.hyps(1))
        show "k = j - Suc n" using Suc.hyps(2) by simp
        show "votes_ok ?votes' (tally_of agent (Suc n))" by (rule ok')
        show "Suc n < j" by (rule lt')
        show "\<forall>i. Suc n \<le> i \<and> i < j \<longrightarrow> (\<forall>c. \<not> reaches (VOTE_MARGIN_K cfg) agent i c)"
          using Suc.prems(3) by simp
      qed
      with win show ?thesis
        using False lt by (subst seq_loop.simps) (simp add: Let_def)
    qed
  qed
qed

lemma seq_loop_unresolved:
  assumes "votes_ok votes (tally_of agent n)"
    and "\<forall>i. n < i \<and> i \<le> MAX_ATTEMPTS_PER_STEP cfg \<longrightarrow>
           (\<forall>c. \<not> reaches (VOTE_MARGIN_K cfg) agent i c)"
  shows "seq_loop cfg agent votes n = unresolved cfg"
  using assms
proof (induction k \<equiv> "MAX_ATTEMPTS_PER_STEP cfg - n" arbitrary: n votes)
  case 0
  then show ?case by (subst seq_loop.simps) simp
next
  case (Suc k)
  from Suc.hyps(2) have lt: "n < MAX_ATTEMPTS_PER_STEP cfg" by simp
  show ?case
  proof (cases "agent n = JNull")
    case True
    have "seq_loop cfg agent votes (Suc n) = unresolved cfg"
    proof (rule Suc.hyps(1))
      show "k = MAX_ATTEMPTS_PER_STEP cfg - Suc n" using Suc.hyps(2) by simp
      show "votes_ok votes (tally_of agent (Suc n))"
        using Suc.prems(1) tally_of_Suc_flagged [of agent n, OF True] by simp
      show "\<forall>i. Suc n < i \<and> i \<le> MAX_ATTEMPTS_PER_STEP cfg \<longrightarrow>
              (\<forall>c. \<not> reaches (VOTE_MARGIN_K cfg) agent i c)"
        using Suc.prems(2) by simp
    qed
    then show ?thesis
      using True lt by (subst seq_loop.simps) simp
  next
    case False
    let ?votes' = "count_vote votes (canonicalStringify (agent n))"
    have ok': "votes_ok ?votes' (tally_of agent (Suc n))"
      using votes_ok_count [OF Suc.prems(1)] tally_of_Suc_counted [of agent n, OF False] by simp
    have win: "winning cfg ?votes' = None"
    proof (cases "winning cfg ?votes'")
      case None
      then show ?thesis .
    next
      case (Some p)
      obtain w' m where "p = (w', m)" by (cases p)
      with Some winning_sound [OF ok', of cfg w' m]
      have "reaches (VOTE_MARGIN_K cfg) agent (Suc n) w'" by simp
      with Suc.prems(2) lt show ?thesis by auto
    qed
    have "seq_loop cfg agent ?votes' (Suc n) = unresolved cfg"
    proof (rule Suc.hyps(1))
      show "k = MAX_ATTEMPTS_PER_STEP cfg - Suc n" using Suc.hyps(2) by simp
      show "votes_ok ?votes' (tally_of agent (Suc n))" by (rule ok')
      show "\<forall>i. Suc n < i \<and> i \<le> MAX_ATTEMPTS_PER_STEP cfg \<longrightarrow>
              (\<forall>c. \<not> reaches (VOTE_MARGIN_K cfg) agent i c)"
        using Suc.prems(2) by simp
    qed
    with win show ?thesis
      using False lt by (subst seq_loop.simps) (simp add: Let_def)
  qed
qed

subsection \<open>The parallel loop with early termination\<close>

lemma early_batch_seq:
  "n + p \<le> MAX_ATTEMPTS_PER_STEP cfg \<Longrightarrow>
   (case early_batch cfg agent p votes n of
      Return r \<Rightarrow> seq_loop cfg agent votes n = r
    | Continue votes' n' \<Rightarrow> n' = n + p \<and> seq_loop cfg agent votes n = seq_loop cfg agent votes' n')"
proof (induction p arbitrary: votes n)
  case 0
  then show ?case by simp
next
  case (Suc p)
  then have lt: "n < MAX_ATTEMPTS_PER_STEP cfg" and le: "Suc n + p \<le> MAX_ATTEMPTS_PER_STEP cfg"
    by simp_all
  note IH = Suc.IH [OF le]
  show ?case
  proof (cases "agent n = JNull")
    case True
    have s: "seq_loop cfg agent votes n = seq_loop cfg agent votes (Suc n)"
      using True lt by (subst seq_loop.simps) simp
    show ?thesis
      using IH [of votes] True by (simp add: s split: batch_result.splits)
  next
    case False
    let ?votes' = "count_vote votes (canonicalStringify (agent n))"
    show ?thesis
    proof (cases "winning cfg ?votes'")
      case None
      have s: "seq_loop cfg agent votes n = seq_loop cfg agent ?votes' (Suc n)"
        using False None lt by (subst seq_loop.simps) (simp add: Let_def)
      show ?thesis
        using IH [of ?votes'] False None by (simp add: s Let_def split: batch_result.splits)
    next
      case (Some p')
      obtain w m where p': "p' = (w, m)" by (cases p')
      have s: "seq_loop cfg agent votes n = decided w m (Suc n)"
        using False Some p' lt by (subst seq_loop.simps) (simp add: Let_def)
      show ?thesis
        using False Some p' by (simp add: s Let_def)
    qed
  qed
qed

lemma par_loop_early:
  assumes "EARLY_TERMINATION cfg" and "1 \<le> BATCH_SIZE cfg"
  shows "par_loop cfg agent votes n = Some (seq_loop cfg agent votes n)"
proof (induction k \<equiv> "MAX_ATTEMPTS_PER_STEP cfg - n" arbitrary: n votes rule: less_induct)
  case less
  show ?case
  proof (cases "n < MAX_ATTEMPTS_PER_STEP cfg")
    case False
    then have "seq_loop cfg agent votes n = unresolved cfg"
      by (subst seq_loop.simps) simp
    with False show ?thesis
      by (subst par_loop.simps) simp
  next
    case True
    define b where "b = min (BATCH_SIZE cfg) (MAX_ATTEMPTS_PER_STEP cfg - n)"
    have b: "1 \<le> b" "n + b \<le> MAX_ATTEMPTS_PER_STEP cfg"
      using True assms(2) by (simp_all add: b_def)
    show ?thesis
    proof (cases "early_batch cfg agent b votes n")
      case (Return r)
      with early_batch_seq [OF b(2), of agent votes] have "seq_loop cfg agent votes n = r"
        by simp
      with Return True assms(1) show ?thesis
        by (subst par_loop.simps) (simp add: Let_def b_def [symmetric])
    next
      case (Continue votes' n')
      with early_batch_seq [OF b(2), of agent votes]
      have n': "n' = n + b" and s: "seq_loop cfg agent votes n = seq_loop cfg agent votes' n'"
        by simp_all
      have "par_loop cfg agent votes' n' = Some (seq_loop cfg agent votes' n')"
        by (rule less.hyps) (use n' b True in simp)
      with Continue True assms(1) s show ?thesis
        by (subst par_loop.simps) (simp add: Let_def b_def [symmetric])
    qed
  qed
qed

subsection \<open>The engine as a whole\<close>

lemma not_reaches_0: "\<not> reaches K agent 0 c"
  by (simp add: reaches_def tally_of_0)

lemma sequential_decides:
  assumes "j \<le> MAX_ATTEMPTS_PER_STEP cfg"
    and "reaches (VOTE_MARGIN_K cfg) agent j w"
    and "\<forall>i<j. \<forall>c. \<not> reaches (VOTE_MARGIN_K cfg) agent i c"
  shows "getConsensusResultSequential cfg agent = decided w (lead_margin agent j w) j"
proof -
  from assms(2) not_reaches_0 [of "VOTE_MARGIN_K cfg" agent w] have "0 < j"
    by (cases j) auto
  moreover have "votes_ok [] (tally_of agent 0)"
    using votes_ok_empty by (simp add: tally_of_0)
  ultimately show ?thesis
    unfolding getConsensusResultSequential_def
    using assms by (intro seq_loop_decides) auto
qed

lemma sequential_unresolved:
  assumes "\<forall>i\<le>MAX_ATTEMPTS_PER_STEP cfg. \<forall>c. \<not> reaches (VOTE_MARGIN_K cfg) agent i c"
  shows "getConsensusResultSequential cfg agent = unresolved cfg"
proof -
  have "votes_ok [] (tally_of agent 0)"
    using votes_ok_empty by (simp add: tally_of_0)
  then show ?thesis
    unfolding getConsensusResultSequential_def
    using assms by (intro seq_loop_unresolved) auto
qed

lemma first_reach:
  assumes "reaches K agent i c"
  obtains j w where "j \<le> i" "reaches K agent j w" "\<forall>i<j. \<forall>c. \<not> reaches K agent i c"
    "0 < j" "agent (j - 1) \<noteq> JNull" "w = canonicalStringify (agent (j - 1))"
proof -
  define j where "j = (LEAST i. \<exists>c. reaches K agent i c)"
  have ex: "\<exists>c. reaches K agent j c"
    unfolding j_def using assms by (intro LeastI [of "\<lambda>i. \<exists>c. reaches K agent i c"]) auto
  then obtain w where w: "reaches K agent j w" by auto
  have le: "j \<le> i"
    unfolding j_def using assms by (intro Least_le) auto
  have first: "\<forall>i<j. \<forall>c. \<not> reaches K agent i c"
    unfolding j_def using not_less_Least by blast
  from w not_reaches_0 [of K agent w] have pos: "0 < j"
    by (cases j) auto
  then obtain n where n: "j = Suc n" by (cases j) auto
  from first n have none: "\<forall>c. \<not> reaches K agent n c" by simp
  have counted: "agent n \<noteq> JNull"
  proof
    assume "agent n = JNull"
    from reaches_cong [OF tally_of_Suc_flagged [of agent n, OF this], of K w] w n none
    show False by simp
  qed
  from deciding_ballot [OF counted _ none] w n have "w = canonicalStringify (agent n)"
    by simp
  with that [of j w] le w first pos counted n show thesis by simp
qed

lemma decided_Inr:
  "decided w m j = Inr out \<longleftrightarrow>
     JSON_parse w = Some (outcome_value out) \<and> voteMargin out = m \<and>
     totalVotes out = j \<and> attempts out = j"
  by (cases out) (auto simp: decided_def split: option.splits)

lemma unresolved_not_Inr: "unresolved cfg \<noteq> Inr out"
  by (simp add: unresolved_def)

lemma consensus_sequential:
  assumes "ENABLE_PARALLEL cfg \<longrightarrow> EARLY_TERMINATION cfg \<and> 1 \<le> BATCH_SIZE cfg"
  shows "getConsensusResult cfg agent = Some (getConsensusResultSequential cfg agent)"
  using assms par_loop_early [of cfg agent "[]" 0]
  by (auto simp: getConsensusResult_def getConsensusResultParallel_def
      getConsensusResultSequential_def)

lemma sequential_Inr:
  assumes "getConsensusResultSequential cfg agent = Inr out"
  shows "0 < attempts out \<and> attempts out \<le> MAX_ATTEMPTS_PER_STEP cfg \<and>
     agent (attempts out - 1) \<noteq> JNull \<and>
     reaches (VOTE_MARGIN_K cfg) agent (attempts out) (canonicalStringify (agent (attempts out - 1))) \<and>
     JSON_parse (canonicalStringify (agent (attempts out - 1))) = Some (outcome_value out) \<and>
     voteMargin out = lead_margin agent (attempts out) (canonicalStringify (agent (attempts out - 1))) \<and>
     totalVotes out = attempts out \<and>
     (\<forall>i<attempts out. \<forall>c. \<not> reaches (VOTE_MARGIN_K cfg) agent i c)"
proof (cases "\<exists>i\<le>MAX_ATTEMPTS_PER_STEP cfg. \<exists>c. reaches (VOTE_MARGIN_K cfg) agent i c")
  case False
  then have "getConsensusResultSequential cfg agent = unresolved cfg"
    by (intro sequential_unresolved) auto
  with assms unresolved_not_Inr [of cfg out] show ?thesis by simp
next
  case True
  then obtain i c where i: "i \<le> MAX_ATTEMPTS_PER_STEP cfg" "reaches (VOTE_MARGIN_K cfg) agent i c"
    by auto
  from first_reach [OF i(2)] obtain j w where j: "j \<le> i" "reaches (VOTE_MARGIN_K cfg) agent j w"
    "\<forall>i<j. \<forall>c. \<not> reaches (VOTE_MARGIN_K cfg) agent i c"
    "0 < j" "agent (j - 1) \<noteq> JNull" "w = canonicalStringify (agent (j - 1))"
    by metis
  from j(1) i(1) have "j \<le> MAX_ATTEMPTS_PER_STEP cfg" by simp
  from sequential_decides [OF this j(2,3)] assms
  have "decided w (lead_margin agent j w) j = Inr out" by simp
  then have "JSON_parse w = Some (outcome_value out)" "voteMargin out = lead_margin agent j w"
    "totalVotes out = j" "attempts out = j"
    by (simp_all add: decided_Inr)
  with j \<open>j \<le> MAX_ATTEMPTS_PER_STEP cfg\<close> show ?thesis by simp
qed

text \<open>
  Claim C2, as amended. The parallel strategy with early termination and a batch size
  of at least 1 returns what the sequential strategy returns, on every sequence of
  worker results: the same winner, margin and attempt count, or the same failure.
\<close>

theorem early_termination_equals_sequential:
  assumes "EARLY_TERMINATION cfg" and "1 \<le> BATCH_SIZE cfg"
  shows "getConsensusResultParallel cfg agent = Some (getConsensusResultSequential cfg agent)"
  unfolding getConsensusResultParallel_def getConsensusResultSequential_def
  using assms by (rule par_loop_early)

theorem early_termination_equals_sequential_witness:
  "EARLY_TERMINATION \<lparr>VOTE_MARGIN_K = 2, MAX_ATTEMPTS_PER_STEP = 6, BATCH_SIZE = 4,
      ENABLE_PARALLEL = True, EARLY_TERMINATION = True, DEV_MODE = False\<rparr>
   \<and> 1 \<le> BATCH_SIZE \<lparr>VOTE_MARGIN_K = 2, MAX_ATTEMPTS_PER_STEP = 6, BATCH_SIZE = 4,
      ENABLE_PARALLEL = True, EARLY_TERMINATION = True, DEV_MODE = False\<rparr>
   \<and> getConsensusResultParallel
       \<lparr>VOTE_MARGIN_K = 2, MAX_ATTEMPTS_PER_STEP = 6, BATCH_SIZE = 4,
        ENABLE_PARALLEL = True, EARLY_TERMINATION = True, DEV_MODE = False\<rparr>
       (ballots [JStr ''A'', JStr ''A'', JStr ''B'', JStr ''B'', JStr ''B'', JStr ''B''])
     = Some (Inr \<lparr>outcome_value = JStr ''A'', voteMargin = 2, totalVotes = 2, attempts = 2\<rparr>)"
proof -
  let ?cfg = "\<lparr>VOTE_MARGIN_K = 2, MAX_ATTEMPTS_PER_STEP = 6, BATCH_SIZE = 4,
      ENABLE_PARALLEL = True, EARLY_TERMINATION = True, DEV_MODE = False\<rparr>"
  let ?agent = "ballots [JStr ''A'', JStr ''A'', JStr ''B'', JStr ''B'', JStr ''B'', JStr ''B'']"
  have e: "EARLY_TERMINATION ?cfg" and b: "1 \<le> BATCH_SIZE ?cfg" by simp_all
  have "getConsensusResultSequential ?cfg ?agent
      = Inr \<lparr>outcome_value = JStr ''A'', voteMargin = 2, totalVotes = 2, attempts = 2\<rparr>"
    by code_simp
  with early_termination_equals_sequential [OF e b, of ?agent] e b show ?thesis
    by (simp del: ballots_def)
qed

theorem exhaustive_batch_other_winner:
  "getConsensusResultSequential
     \<lparr>VOTE_MARGIN_K = 2, MAX_ATTEMPTS_PER_STEP = 6, BATCH_SIZE = 4,
      ENABLE_PARALLEL = True, EARLY_TERMINATION = False, DEV_MODE = False\<rparr>
     (ballots [JStr ''A'', JStr ''A'', JStr ''B'', JStr ''B'', JStr ''B'', JStr ''B''])
   = Inr \<lparr>outcome_value = JStr ''A'', voteMargin = 2, totalVotes = 2, attempts = 2\<rparr>
   \<and> getConsensusResultParallel
     \<lparr>VOTE_MARGIN_K = 2, MAX_ATTEMPTS_PER_STEP = 6, BATCH_SIZE = 4,
      ENABLE_PARALLEL = True, EARLY_TERMINATION = False, DEV_MODE = False\<rparr>
     (ballots [JStr ''A'', JStr ''A'', JStr ''B'', JStr ''B'', JStr ''B'', JStr ''B''])
   = Some (Inr \<lparr>outcome_value = JStr ''B'', voteMargin = 2, totalVotes = 6, attempts = 6\<rparr>)"
  by code_simp

subsection \<open>Two candidates in alternation\<close>

lemma alternating_tally:
  assumes "a \<noteq> JNull" "b \<noteq> JNull" "canonicalStringify a \<noteq> canonicalStringify b"
    and "\<forall>i<n. agent i = (if even i then a else b)"
  shows "tally_of agent n c =
     (if c = canonicalStringify a then (n + 1) div 2
      else if c = canonicalStringify b then n div 2 else 0)"
  using assms(4)
proof (induction n arbitrary: c)
  case 0
  then show ?case by (simp add: tally_of_0)
next
  case (Suc n)
  from Suc.prems have prev: "\<forall>i<n. agent i = (if even i then a else b)" by simp
  note IH = Suc.IH [OF prev]
  from Suc.prems have n: "agent n = (if even n then a else b)" by simp
  then have "agent n \<noteq> JNull" using assms(1,2) by simp
  from tally_of_Suc_counted [of agent n, OF this]
  have "tally_of agent (Suc n) c =
      (if c = canonicalStringify (agent n) then Suc (tally_of agent n c) else tally_of agent n c)"
    by simp
  then show ?case
    using assms(3) n by (auto simp: IH)
qed

lemma alternating_undecided:
  assumes "2 \<le> K" "a \<noteq> JNull" "b \<noteq> JNull" "canonicalStringify a \<noteq> canonicalStringify b"
    and "\<forall>i<n. agent i = (if even i then a else b)"
  shows "\<not> reaches K agent n c"
proof
  assume r: "reaches K agent n c"
  note t = alternating_tally [OF assms(2,3,4,5)]
  from r have pos: "0 < tally_of agent n c"
    and others: "\<And>c'. c' \<noteq> c \<Longrightarrow> K \<le> int (tally_of agent n c) - int (tally_of agent n c')"
    unfolding reaches_iff by simp_all
  from pos have "c = canonicalStringify a \<or> c = canonicalStringify b"
    unfolding t by (auto split: if_splits)
  then show False
  proof
    assume c: "c = canonicalStringify a"
    from others [of "canonicalStringify b"] assms(4) c
    have "K \<le> int ((n + 1) div 2) - int (n div 2)"
      unfolding t by simp
    with assms(1) show False by linarith
  next
    assume c: "c = canonicalStringify b"
    from others [of "canonicalStringify a"] assms(4) c
    have "K \<le> int (n div 2) - int ((n + 1) div 2)"
      unfolding t by simp
    with assms(1) show False by linarith
  qed
qed

subsection \<open>Flagged results\<close>

lemma tally_of_ballots:
  "tally_of (ballots bs) p c =
     length (filter (\<lambda>b. b \<noteq> JNull \<and> canonicalStringify b = c) (take p bs))"
proof (induction p arbitrary: c)
  case 0
  then show ?case by (simp add: tally_of_0)
next
  case (Suc p)
  show ?case
  proof (cases "p < length bs")
    case True
    then have b: "ballots bs p = bs ! p" by (simp add: ballots_def)
    show ?thesis
    proof (cases "bs ! p = JNull")
      case n: True
      with b tally_of_Suc_flagged [of "ballots bs" p] Suc True show ?thesis
        by (simp add: take_Suc_conv_app_nth)
    next
      case n: False
      with b tally_of_Suc_counted [of "ballots bs" p] Suc True show ?thesis
        by (simp add: take_Suc_conv_app_nth)
    qed
  next
    case False
    then have "ballots bs p = JNull" by (simp add: ballots_def)
    with tally_of_Suc_flagged [of "ballots bs" p] Suc False show ?thesis
      by simp
  qed
qed

lemma take_filter:
  "take (length (filter P (take p xs))) (filter P xs) = filter P (take p xs)"
proof (induction xs arbitrary: p)
  case Nil
  then show ?case by simp
next
  case (Cons x xs)
  then show ?case by (cases p) auto
qed

lemma tally_without_flagged:
  "tally_of (ballots bs) p =
     tally_of (ballots (filter (\<lambda>b. b \<noteq> JNull) bs)) (length (filter (\<lambda>b. b \<noteq> JNull) (take p bs)))"
proof
  fix c
  let ?counted = "\<lambda>b. b \<noteq> JNull"
  have "filter (\<lambda>b. b \<noteq> JNull \<and> canonicalStringify b = c)
          (take (length (filter ?counted (take p bs))) (filter ?counted bs))
      = filter (\<lambda>b. b \<noteq> JNull \<and> canonicalStringify b = c) (take p bs)"
    by (simp only: take_filter) (simp cong: conj_cong)
  then show "tally_of (ballots bs) p c =
     tally_of (ballots (filter ?counted bs)) (length (filter ?counted (take p bs))) c"
    by (simp only: tally_of_ballots)
qed

lemma attempt_of_counted_0 [simp]: "attempt_of_counted bs 0 = 0"
  by (cases bs) simp_all

lemma attempt_of_counted_count:
  "0 < n \<Longrightarrow> n \<le> length (filter (\<lambda>b. b \<noteq> JNull) bs) \<Longrightarrow>
   length (filter (\<lambda>b. b \<noteq> JNull) (take (attempt_of_counted bs n) bs)) = n"
proof (induction bs arbitrary: n)
  case Nil
  then show ?case by simp
next
  case (Cons b bs)
  show ?case
  proof (cases "b = JNull")
    case True
    with Cons.prems Cons.IH [of n] show ?thesis by simp
  next
    case False
    with Cons.prems Cons.IH [of "n - 1"] show ?thesis by (cases "n = 1") auto
  qed
qed

lemma attempt_of_counted_first:
  "0 < n \<Longrightarrow> n \<le> length (filter (\<lambda>b. b \<noteq> JNull) bs) \<Longrightarrow> i < attempt_of_counted bs n \<Longrightarrow>
   length (filter (\<lambda>b. b \<noteq> JNull) (take i bs)) < n"
proof (induction bs arbitrary: n i)
  case Nil
  then show ?case by simp
next
  case (Cons b bs)
  show ?case
  proof (cases i)
    case 0
    with Cons.prems show ?thesis by simp
  next
    case (Suc i')
    show ?thesis
    proof (cases "b = JNull")
      case True
      with Cons.prems Suc have "length (filter (\<lambda>b. b \<noteq> JNull) (take i' bs)) < n"
        by (intro Cons.IH) auto
      with True Suc show ?thesis by simp
    next
      case False
      show ?thesis
      proof (cases "n = 1")
        case True
        with Cons.prems Suc False show ?thesis by simp
      next
        case n: False
        with Cons.prems Suc False have "length (filter (\<lambda>b. b \<noteq> JNull) (take i' bs)) < n - 1"
          by (intro Cons.IH) auto
        with False Suc show ?thesis by simp
      qed
    qed
  qed
qed

lemma attempt_of_counted_flagged:
  "0 < n \<Longrightarrow> n \<le> length (filter (\<lambda>b. b \<noteq> JNull) bs) \<Longrightarrow>
   attempt_of_counted bs n =
     n + length (filter (\<lambda>b. b = JNull) (take (attempt_of_counted bs n) bs))"
proof (induction bs arbitrary: n)
  case Nil
  then show ?case by simp
next
  case (Cons b bs)
  show ?case
  proof (cases "b = JNull")
    case True
    with Cons.prems Cons.IH [of n] show ?thesis by simp
  next
    case False
    show ?thesis
    proof (cases n)
      case 0
      with Cons.prems show ?thesis by simp
    next
      case (Suc m)
      show ?thesis
      proof (cases "m = 0")
        case True
        with Suc False show ?thesis by simp
      next
        case m: False
        with Cons.prems Suc False Cons.IH [of m] show ?thesis by simp
      qed
    qed
  qed
qed

lemma accepted_votes_ballots:
  "accepted_votes (ballots bs) p = length (filter (\<lambda>b. b \<noteq> JNull) (take p bs))"
proof (induction p)
  case 0
  then show ?case by (simp add: accepted_votes_def)
next
  case (Suc p)
  have step: "accepted_votes (ballots bs) (Suc p) =
      accepted_votes (ballots bs) p + (if ballots bs p \<noteq> JNull then 1 else 0)"
    by (simp add: accepted_votes_def)
  have b: "ballots bs p = (if p < length bs then bs ! p else JNull)"
    by (simp add: ballots_def)
  show ?case
  proof (cases "p < length bs")
    case True
    with Suc show ?thesis
      unfolding step b by (simp add: take_Suc_conv_app_nth)
  next
    case False
    with Suc show ?thesis
      unfolding step b by simp
  qed
qed

lemma flagged_results_sequential:
  assumes "getConsensusResultSequential cfg (ballots (filter (\<lambda>b. b \<noteq> JNull) bs)) = Inr out"
  shows "attempt_of_counted bs (attempts out) =
           attempts out +
           length (filter (\<lambda>b. b = JNull) (take (attempt_of_counted bs (attempts out)) bs))
       \<and> accepted_votes (ballots bs) (attempt_of_counted bs (attempts out)) = attempts out
       \<and> getConsensusResultSequential cfg (ballots bs) =
           (if attempt_of_counted bs (attempts out) \<le> MAX_ATTEMPTS_PER_STEP cfg
            then Inr (out\<lparr>totalVotes := attempt_of_counted bs (attempts out),
                          attempts := attempt_of_counted bs (attempts out)\<rparr>)
            else unresolved cfg)"
proof -
  let ?counted = "\<lambda>b. b \<noteq> JNull"
  let ?cs = "filter ?counted bs"
  let ?K = "VOTE_MARGIN_K cfg"
  define n where "n = attempts out"
  define p where "p = attempt_of_counted bs n"
  define w where "w = canonicalStringify (ballots ?cs (n - 1))"
  note facts = sequential_Inr [OF assms]
  from facts have pos: "0 < n" and last: "ballots ?cs (n - 1) \<noteq> JNull"
    and r: "reaches ?K (ballots ?cs) n w"
    and parse: "JSON_parse w = Some (outcome_value out)"
    and margin: "voteMargin out = lead_margin (ballots ?cs) n w"
    and total: "totalVotes out = n"
    and first: "\<forall>i<n. \<forall>c. \<not> reaches ?K (ballots ?cs) i c"
    unfolding n_def w_def by blast+
  from last have "n - 1 < length ?cs"
    by (auto simp: ballots_def split: if_splits)
  with pos have le: "n \<le> length ?cs" by simp
  have count: "length (filter ?counted (take p bs)) = n"
    unfolding p_def using pos le by (rule attempt_of_counted_count)
  have before: "length (filter ?counted (take i bs)) < n" if "i < p" for i
    using pos le that unfolding p_def by (rule attempt_of_counted_first)
  have flagged: "p = n + length (filter (\<lambda>b. b = JNull) (take p bs))"
    unfolding p_def using pos le by (rule attempt_of_counted_flagged)
  have accepted: "accepted_votes (ballots bs) p = n"
    by (simp add: accepted_votes_ballots count)
  have t: "tally_of (ballots bs) p = tally_of (ballots ?cs) n"
    using tally_without_flagged [of bs p] count by simp
  have r': "reaches ?K (ballots bs) p w"
    using reaches_cong [OF t, of ?K w] r by simp
  have m': "lead_margin (ballots bs) p w = voteMargin out"
    using lead_margin_cong [OF t, of w] margin by simp
  have first': "\<not> reaches ?K (ballots bs) i c" if "i < p" for i c
  proof -
    have "tally_of (ballots bs) i = tally_of (ballots ?cs) (length (filter ?counted (take i bs)))"
      by (rule tally_without_flagged)
    from reaches_cong [OF this, of ?K c] first before [OF that] show ?thesis by simp
  qed
  have "getConsensusResultSequential cfg (ballots bs) =
      (if p \<le> MAX_ATTEMPTS_PER_STEP cfg then Inr (out\<lparr>totalVotes := p, attempts := p\<rparr>)
       else unresolved cfg)"
  proof (cases "p \<le> MAX_ATTEMPTS_PER_STEP cfg")
    case True
    have "getConsensusResultSequential cfg (ballots bs) = decided w (lead_margin (ballots bs) p w) p"
      using True r' first' by (intro sequential_decides) auto
    also have "\<dots> = Inr (out\<lparr>totalVotes := p, attempts := p\<rparr>)"
      using parse m' by (cases out) (simp add: decided_def)
    finally show ?thesis using True by simp
  next
    case False
    have "getConsensusResultSequential cfg (ballots bs) = unresolved cfg"
      using False first' by (intro sequential_unresolved) auto
    with False show ?thesis by simp
  qed
  with flagged accepted show ?thesis
    unfolding p_def n_def by simp
qed

text \<open>
  Claim C4, as amended. In the sequential strategy and in the parallel strategy with
  early termination: take a list of worker results and the same list without its
  flagged results. When the engine decides on the list without them, after \<open>n\<close>
  (counted) results, then on the full list it needs the same \<open>n\<close> counted results:
  it consumes one attempt more for each flagged result received before the \<open>n\<close>-th
  counted one, and returns the same winner and margin, provided these attempts fit
  under the ceiling; when they do not, the engine fails as unresolved.
\<close>

theorem flagged_results_neutral:
  assumes "ENABLE_PARALLEL cfg \<longrightarrow> EARLY_TERMINATION cfg \<and> 1 \<le> BATCH_SIZE cfg"
    and "getConsensusResult cfg (ballots (filter (\<lambda>b. b \<noteq> JNull) bs)) = Some (Inr out)"
  shows "attempt_of_counted bs (attempts out) =
           attempts out +
           length (filter (\<lambda>b. b = JNull) (take (attempt_of_counted bs (attempts out)) bs))
       \<and> accepted_votes (ballots bs) (attempt_of_counted bs (attempts out)) = attempts out
       \<and> getConsensusResult cfg (ballots bs) =
           Some (if attempt_of_counted bs (attempts out) \<le> MAX_ATTEMPTS_PER_STEP cfg
                 then Inr (out\<lparr>totalVotes := attempt_of_counted bs (attempts out),
                               attempts := attempt_of_counted bs (attempts out)\<rparr>)
                 else unresolved cfg)"
proof -
  from assms(2) consensus_sequential [OF assms(1), of "ballots (filter (\<lambda>b. b \<noteq> JNull) bs)"]
  have "getConsensusResultSequential cfg (ballots (filter (\<lambda>b. b \<noteq> JNull) bs)) = Inr out"
    by simp
  from flagged_results_sequential [OF this] consensus_sequential [OF assms(1), of "ballots bs"]
  show ?thesis by simp
qed

theorem flagged_results_neutral_witness:
  "getConsensusResult
     \<lparr>VOTE_MARGIN_K = 2, MAX_ATTEMPTS_PER_STEP = 6, BATCH_SIZE = 4, ENABLE_PARALLEL = True,
      EARLY_TERMINATION = True, DEV_MODE = False\<rparr>
     (ballots (filter (\<lambda>b. b \<noteq> JNull) [JNull, JStr ''A'', JNull, JStr ''A'']))
   = Some (Inr \<lparr>outcome_value = JStr ''A'', voteMargin = 2, totalVotes = 2, attempts = 2\<rparr>)
   \<and> attempt_of_counted [JNull, JStr ''A'', JNull, JStr ''A''] 2 = 4
   \<and> accepted_votes (ballots [JNull, JStr ''A'', JNull, JStr ''A'']) 4 = 2
   \<and> getConsensusResult
     \<lparr>VOTE_MARGIN_K = 2, MAX_ATTEMPTS_PER_STEP = 6, BATCH_SIZE = 4, ENABLE_PARALLEL = True,
      EARLY_TERMINATION = True, DEV_MODE = False\<rparr>
     (ballots [JNull, JStr ''A'', JNull, JStr ''A''])
   = Some (Inr \<lparr>outcome_value = JStr ''A'', voteMargin = 2, totalVotes = 4, attempts = 4\<rparr>)"
proof -
  let ?cfg = "\<lparr>VOTE_MARGIN_K = 2, MAX_ATTEMPTS_PER_STEP = 6, BATCH_SIZE = 4, ENABLE_PARALLEL = True,
      EARLY_TERMINATION = True, DEV_MODE = False\<rparr>"
  let ?bs = "[JNull, JStr ''A'', JNull, JStr ''A'']"
  let ?out = "\<lparr>outcome_value = JStr ''A'', voteMargin = 2, totalVotes = 2, attempts = 2\<rparr>"
  have mode: "ENABLE_PARALLEL ?cfg \<longrightarrow> EARLY_TERMINATION ?cfg \<and> 1 \<le> BATCH_SIZE ?cfg"
    by simp
  have h: "getConsensusResult ?cfg (ballots (filter (\<lambda>b. b \<noteq> JNull) ?bs)) = Some (Inr ?out)"
    by code_simp
  have p: "attempt_of_counted ?bs (attempts ?out) = 4"
    by code_simp
  have p': "attempt_of_counted ?bs 2 = 4"
    by code_simp
  note c = flagged_results_neutral [OF mode h, unfolded p]
  from c h p' show ?thesis
    by (simp del: ballots_def attempt_of_counted.simps)
qed

text \<open>
  Against C4 as stated: a flagged result consumes an attempt, and the ceiling bounds the
  attempts. With \<open>K = 2\<close> and a ceiling of 2 the results A, A decide for A, and one
  flagged result in front of them leaves the step unresolved.
\<close>

theorem flagged_results_exhaust_ceiling:
  "getConsensusResultSequential
     \<lparr>VOTE_MARGIN_K = 2, MAX_ATTEMPTS_PER_STEP = 2, BATCH_SIZE = 4, ENABLE_PARALLEL = False,
      EARLY_TERMINATION = True, DEV_MODE = False\<rparr>
     (ballots [JStr ''A'', JStr ''A''])
   = Inr \<lparr>outcome_value = JStr ''A'', voteMargin = 2, totalVotes = 2, attempts = 2\<rparr>
   \<and> getConsensusResultSequential
     \<lparr>VOTE_MARGIN_K = 2, MAX_ATTEMPTS_PER_STEP = 2, BATCH_SIZE = 4, ENABLE_PARALLEL = False,
      EARLY_TERMINATION = True, DEV_MODE = False\<rparr>
     (ballots [JNull, JStr ''A'', JStr ''A''])
   = Inl (Error ''Failed to reach consensus after 2 attempts.'')"
  by code_simp

text \<open>
  Without early termination a flagged result also moves the batch boundaries, where
  the check runs, and the winner can change within the ceiling: with \<open>K = 2\<close>, a
  ceiling of 8 and batches of 2, the results A, A, B, B, B, B decide for A after 2
  attempts, and with one flagged result in front of them for B after 8.
\<close>

lemma flagged_result_moves_batch_check:
  "getConsensusResult
     \<lparr>VOTE_MARGIN_K = 2, MAX_ATTEMPTS_PER_STEP = 8, BATCH_SIZE = 2, ENABLE_PARALLEL = True,
      EARLY_TERMINATION = False, DEV_MODE = False\<rparr>
     (ballots [JStr ''A'', JStr ''A'', JStr ''B'', JStr ''B'', JStr ''B'', JStr ''B''])
   = Some (Inr \<lparr>outcome_value = JStr ''A'', voteMargin = 2, totalVotes = 2, attempts = 2\<rparr>)
   \<and> getConsensusResult
     \<lparr>VOTE_MARGIN_K = 2, MAX_ATTEMPTS_PER_STEP = 8, BATCH_SIZE = 2, ENABLE_PARALLEL = True,
      EARLY_TERMINATION = False, DEV_MODE = False\<rparr>
     (ballots [JNull, JStr ''A'', JStr ''A'', JStr ''B'', JStr ''B'', JStr ''B'', JStr ''B''])
   = Some (Inr \<lparr>outcome_value = JStr ''B'', voteMargin = 2, totalVotes = 8, attempts = 8\<rparr>)"
  by code_simp


subsection \<open>The exhaustive batch mode\<close>

lemma tally_batch_snoc:
  "tally_batch votes (results @ [r]) =
     (if r = JNull then tally_batch votes results
      else count_vote (tally_batch votes results) (canonicalStringify r))"
  by (simp add: tally_batch_def)

lemma tally_batch_ok:
  assumes "votes_ok votes (tally_of agent n)"
  shows "votes_ok (tally_batch votes (map agent [n ..< n + b])) (tally_of agent (n + b))"
proof (induction b)
  case 0
  with assms show ?case by (simp add: tally_batch_def)
next
  case (Suc b)
  have up: "map agent [n ..< n + Suc b] = map agent [n ..< n + b] @ [agent (n + b)]"
    by simp
  show ?case
  proof (cases "agent (n + b) = JNull")
    case True
    with Suc tally_of_Suc_flagged [of agent "n + b"] show ?thesis
      unfolding up tally_batch_snoc by simp
  next
    case False
    note t = tally_of_Suc_counted [of agent "n + b", OF False]
    have "votes_ok (count_vote (tally_batch votes (map agent [n ..< n + b]))
             (canonicalStringify (agent (n + b)))) (tally_of agent (Suc (n + b)))"
      unfolding t by (rule votes_ok_count [OF Suc])
    with False show ?thesis
      unfolding up tally_batch_snoc by simp
  qed
qed

lemma par_loop_full_unresolved:
  assumes "\<not> EARLY_TERMINATION cfg" and "1 \<le> BATCH_SIZE cfg"
    and "votes_ok votes (tally_of agent n)"
    and "\<forall>j. n < j \<and> j \<le> MAX_ATTEMPTS_PER_STEP cfg \<longrightarrow>
           (\<forall>c. \<not> reaches (VOTE_MARGIN_K cfg) agent j c)"
  shows "par_loop cfg agent votes n = Some (unresolved cfg)"
  using assms(3,4)
proof (induction k \<equiv> "MAX_ATTEMPTS_PER_STEP cfg - n" arbitrary: n votes rule: less_induct)
  case less
  show ?case
  proof (cases "n < MAX_ATTEMPTS_PER_STEP cfg")
    case False
    then show ?thesis by (subst par_loop.simps) simp
  next
    case True
    define b where "b = min (BATCH_SIZE cfg) (MAX_ATTEMPTS_PER_STEP cfg - n)"
    have b: "1 \<le> b" "n + b \<le> MAX_ATTEMPTS_PER_STEP cfg"
      using True assms(2) by (simp_all add: b_def)
    let ?votes' = "tally_batch votes (map agent [n ..< n + b])"
    have ok': "votes_ok ?votes' (tally_of agent (n + b))"
      using less.prems(1) by (rule tally_batch_ok)
    have win: "winning cfg ?votes' = None"
    proof (cases "winning cfg ?votes'")
      case None
      then show ?thesis .
    next
      case (Some p)
      obtain w m where "p = (w, m)" by (cases p)
      with Some winning_sound [OF ok', of cfg w m]
      have "reaches (VOTE_MARGIN_K cfg) agent (n + b) w" by simp
      with less.prems(2) b show ?thesis by auto
    qed
    have "par_loop cfg agent ?votes' (n + b) = Some (unresolved cfg)"
    proof (rule less.hyps)
      show "MAX_ATTEMPTS_PER_STEP cfg - (n + b) < MAX_ATTEMPTS_PER_STEP cfg - n"
        using b True by simp
      show "votes_ok ?votes' (tally_of agent (n + b))" by (rule ok')
      show "\<forall>j. n + b < j \<and> j \<le> MAX_ATTEMPTS_PER_STEP cfg \<longrightarrow>
              (\<forall>c. \<not> reaches (VOTE_MARGIN_K cfg) agent j c)"
        using less.prems(2) by simp
    qed
    with win True assms(1) show ?thesis
      by (subst par_loop.simps) (simp add: Let_def b_def [symmetric] full_batch_def)
  qed
qed

lemma par_loop_full_sound:
  assumes "\<not> EARLY_TERMINATION cfg" and "1 \<le> BATCH_SIZE cfg"
    and "votes_ok votes (tally_of agent n)"
    and "par_loop cfg agent votes n = Some (Inr out)"
  shows "\<exists>w. reaches (VOTE_MARGIN_K cfg) agent (attempts out) w \<and>
             JSON_parse w = Some (outcome_value out) \<and>
             voteMargin out = lead_margin agent (attempts out) w \<and>
             totalVotes out = attempts out \<and>
             attempts out \<le> MAX_ATTEMPTS_PER_STEP cfg"
  using assms(3,4)
proof (induction k \<equiv> "MAX_ATTEMPTS_PER_STEP cfg - n" arbitrary: n votes rule: less_induct)
  case less
  show ?case
  proof (cases "n < MAX_ATTEMPTS_PER_STEP cfg")
    case False
    with less.prems(2) unresolved_not_Inr [of cfg out] show ?thesis
      by (subst (asm) par_loop.simps) simp
  next
    case True
    define b where "b = min (BATCH_SIZE cfg) (MAX_ATTEMPTS_PER_STEP cfg - n)"
    have b: "1 \<le> b" "n + b \<le> MAX_ATTEMPTS_PER_STEP cfg"
      using True assms(2) by (simp_all add: b_def)
    let ?votes' = "tally_batch votes (map agent [n ..< n + b])"
    have ok': "votes_ok ?votes' (tally_of agent (n + b))"
      using less.prems(1) by (rule tally_batch_ok)
    show ?thesis
    proof (cases "winning cfg ?votes'")
      case None
      with less.prems(2) True assms(1)
      have "par_loop cfg agent ?votes' (n + b) = Some (Inr out)"
        by (subst (asm) par_loop.simps) (simp add: Let_def b_def [symmetric] full_batch_def)
      moreover have "MAX_ATTEMPTS_PER_STEP cfg - (n + b) < MAX_ATTEMPTS_PER_STEP cfg - n"
        using b True by simp
      ultimately show ?thesis
        using ok' by (intro less.hyps [of "n + b" ?votes'])
    next
      case (Some p)
      obtain w m where p: "p = (w, m)" by (cases p)
      with Some less.prems(2) True assms(1)
      have "decided w m (n + b) = Inr out"
        by (subst (asm) par_loop.simps) (simp add: Let_def b_def [symmetric] full_batch_def)
      then have d: "JSON_parse w = Some (outcome_value out)" "voteMargin out = m"
        "totalVotes out = n + b" "attempts out = n + b"
        by (simp_all add: decided_Inr)
      from winning_sound [OF ok', of cfg w m] Some p
      have "reaches (VOTE_MARGIN_K cfg) agent (n + b) w" "m = lead_margin agent (n + b) w"
        by simp_all
      with d b show ?thesis by auto
    qed
  qed
qed

lemma consensus_unresolved:
  assumes "ENABLE_PARALLEL cfg \<longrightarrow> 1 \<le> BATCH_SIZE cfg"
    and "\<forall>j\<le>MAX_ATTEMPTS_PER_STEP cfg. \<forall>c. \<not> reaches (VOTE_MARGIN_K cfg) agent j c"
  shows "getConsensusResult cfg agent = Some (unresolved cfg)"
proof (cases "ENABLE_PARALLEL cfg \<and> \<not> EARLY_TERMINATION cfg")
  case True
  have "votes_ok [] (tally_of agent 0)"
    using votes_ok_empty by (simp add: tally_of_0)
  with True assms have "par_loop cfg agent [] 0 = Some (unresolved cfg)"
    by (intro par_loop_full_unresolved) auto
  with True show ?thesis
    by (simp add: getConsensusResult_def getConsensusResultParallel_def)
next
  case False
  with assms(1) have "getConsensusResult cfg agent = Some (getConsensusResultSequential cfg agent)"
    by (intro consensus_sequential) auto
  with sequential_unresolved [OF assms(2)] show ?thesis by simp
qed

lemma consensus_Inr:
  assumes "ENABLE_PARALLEL cfg \<longrightarrow> 1 \<le> BATCH_SIZE cfg"
    and "getConsensusResult cfg agent = Some (Inr out)"
  shows "\<exists>w. reaches (VOTE_MARGIN_K cfg) agent (attempts out) w \<and>
             JSON_parse w = Some (outcome_value out) \<and>
             voteMargin out = lead_margin agent (attempts out) w \<and>
             totalVotes out = attempts out \<and>
             attempts out \<le> MAX_ATTEMPTS_PER_STEP cfg"
proof (cases "ENABLE_PARALLEL cfg \<and> \<not> EARLY_TERMINATION cfg")
  case True
  have ok: "votes_ok [] (tally_of agent 0)"
    using votes_ok_empty by (simp add: tally_of_0)
  from True assms(2) have "par_loop cfg agent [] 0 = Some (Inr out)"
    by (simp add: getConsensusResult_def getConsensusResultParallel_def)
  with True assms(1) ok show ?thesis
    by (intro par_loop_full_sound [of cfg "[]" agent 0]) auto
next
  case False
  with assms(1) have "getConsensusResult cfg agent = Some (getConsensusResultSequential cfg agent)"
    by (intro consensus_sequential) auto
  with assms(2) have "getConsensusResultSequential cfg agent = Inr out" by simp
  from sequential_Inr [OF this] show ?thesis by blast
qed


subsection \<open>The margin rule in every mode\<close>

text \<open>
  Claim C1, as amended. In every mode, when the engine returns an outcome, the
  candidate it declares has votes and a margin (its count minus the next-highest other
  count) of at least \<open>K\<close> after the attempt at which the engine returns: no winner is
  declared without the margin. In the sequential strategy and in the parallel strategy
  with early termination, moreover, no candidate had the margin after any earlier
  attempt; and when a candidate first reaches the margin after attempt \<open>j\<close>, within
  the ceiling, the engine decides for that candidate at attempt \<open>j\<close> with that margin.
\<close>

theorem first_to_ahead_by_K:
  assumes "ENABLE_PARALLEL cfg \<longrightarrow> 1 \<le> BATCH_SIZE cfg"
  shows "(\<forall>out. getConsensusResult cfg agent = Some (Inr out) \<longrightarrow>
            attempts out \<le> MAX_ATTEMPTS_PER_STEP cfg \<and>
            (\<exists>w. reaches (VOTE_MARGIN_K cfg) agent (attempts out) w \<and>
                 JSON_parse w = Some (outcome_value out) \<and>
                 voteMargin out = lead_margin agent (attempts out) w))
       \<and> ((ENABLE_PARALLEL cfg \<longrightarrow> EARLY_TERMINATION cfg) \<longrightarrow>
            (\<forall>out. getConsensusResult cfg agent = Some (Inr out) \<longrightarrow>
               (\<forall>i<attempts out. \<forall>c. \<not> reaches (VOTE_MARGIN_K cfg) agent i c))
          \<and> (\<forall>j w. j \<le> MAX_ATTEMPTS_PER_STEP cfg \<and> reaches (VOTE_MARGIN_K cfg) agent j w \<and>
                 (\<forall>i<j. \<forall>c. \<not> reaches (VOTE_MARGIN_K cfg) agent i c) \<longrightarrow>
               getConsensusResult cfg agent = Some (decided w (lead_margin agent j w) j)))"
proof (intro conjI allI impI)
  fix out
  assume "getConsensusResult cfg agent = Some (Inr out)"
  from consensus_Inr [OF assms this]
  show "attempts out \<le> MAX_ATTEMPTS_PER_STEP cfg"
    and "\<exists>w. reaches (VOTE_MARGIN_K cfg) agent (attempts out) w \<and>
                 JSON_parse w = Some (outcome_value out) \<and>
                 voteMargin out = lead_margin agent (attempts out) w"
    by blast+
next
  fix out i c
  assume early: "ENABLE_PARALLEL cfg \<longrightarrow> EARLY_TERMINATION cfg"
    and res: "getConsensusResult cfg agent = Some (Inr out)"
    and i: "i < attempts out"
  from assms early have "ENABLE_PARALLEL cfg \<longrightarrow> EARLY_TERMINATION cfg \<and> 1 \<le> BATCH_SIZE cfg"
    by simp
  from consensus_sequential [OF this, of agent] res
  have "getConsensusResultSequential cfg agent = Inr out" by simp
  from sequential_Inr [OF this] i show "\<not> reaches (VOTE_MARGIN_K cfg) agent i c" by simp
next
  fix j w
  assume early: "ENABLE_PARALLEL cfg \<longrightarrow> EARLY_TERMINATION cfg"
    and first: "j \<le> MAX_ATTEMPTS_PER_STEP cfg \<and> reaches (VOTE_MARGIN_K cfg) agent j w \<and>
                 (\<forall>i<j. \<forall>c. \<not> reaches (VOTE_MARGIN_K cfg) agent i c)"
  from assms early have "ENABLE_PARALLEL cfg \<longrightarrow> EARLY_TERMINATION cfg \<and> 1 \<le> BATCH_SIZE cfg"
    by simp
  from consensus_sequential [OF this, of agent] first sequential_decides [of j cfg agent w]
  show "getConsensusResult cfg agent = Some (decided w (lead_margin agent j w) j)"
    by simp
qed

theorem first_to_ahead_by_K_witness:
  "getConsensusResult
     \<lparr>VOTE_MARGIN_K = 2, MAX_ATTEMPTS_PER_STEP = 6, BATCH_SIZE = 4, ENABLE_PARALLEL = True,
      EARLY_TERMINATION = True, DEV_MODE = False\<rparr>
     (ballots [JStr ''A'', JStr ''B'', JStr ''A'', JStr ''A''])
   = Some (Inr \<lparr>outcome_value = JStr ''A'', voteMargin = 2, totalVotes = 4, attempts = 4\<rparr>)
   \<and> reaches 2 (ballots [JStr ''A'', JStr ''B'', JStr ''A'', JStr ''A'']) 4 [CHR 0x22, CHR ''A'', CHR 0x22]
   \<and> lead_margin (ballots [JStr ''A'', JStr ''B'', JStr ''A'', JStr ''A'']) 4 [CHR 0x22, CHR ''A'', CHR 0x22] = 2
   \<and> \<not> (\<exists>i c. i < 4 \<and> reaches 2 (ballots [JStr ''A'', JStr ''B'', JStr ''A'', JStr ''A'']) i c)"
proof -
  let ?cfg = "\<lparr>VOTE_MARGIN_K = 2, MAX_ATTEMPTS_PER_STEP = 6, BATCH_SIZE = 4, ENABLE_PARALLEL = True,
      EARLY_TERMINATION = True, DEV_MODE = False\<rparr>"
  let ?agent = "ballots [JStr ''A'', JStr ''B'', JStr ''A'', JStr ''A'']"
  let ?out = "\<lparr>outcome_value = JStr ''A'', voteMargin = 2, totalVotes = 4, attempts = 4\<rparr>"
  have batch: "ENABLE_PARALLEL ?cfg \<longrightarrow> 1 \<le> BATCH_SIZE ?cfg"
    by simp
  have early: "ENABLE_PARALLEL ?cfg \<longrightarrow> EARLY_TERMINATION ?cfg"
    by simp
  have res: "getConsensusResult ?cfg ?agent = Some (Inr ?out)"
    by code_simp
  have r: "reaches 2 ?agent 4 [CHR 0x22, CHR ''A'', CHR 0x22]"
    by code_simp
  have m: "lead_margin ?agent 4 [CHR 0x22, CHR ''A'', CHR 0x22] = 2"
    by code_simp
  from first_to_ahead_by_K [OF batch, of ?agent] early res
  have "\<forall>i<4. \<forall>c. \<not> reaches 2 ?agent i c"
    by (auto simp del: ballots_def)
  with res r m show ?thesis by auto
qed

text \<open>
  Against C1 as stated: without early termination the check runs once per batch. With
  \<open>K = 2\<close>, a ceiling of 6, batches of 4 and the results A, A, B, B, B, B, candidate A
  is the first to reach the margin, after the second result; the first batch ends in
  a tie, and the engine declares B after 6 attempts.
\<close>

theorem exhaustive_batch_passes_first_leader:
  "reaches 2 (ballots [JStr ''A'', JStr ''A'', JStr ''B'', JStr ''B'', JStr ''B'', JStr ''B'']) 2
     [CHR 0x22, CHR ''A'', CHR 0x22]
   \<and> \<not> (\<exists>i c. i < 2 \<and>
          reaches 2 (ballots [JStr ''A'', JStr ''A'', JStr ''B'', JStr ''B'', JStr ''B'', JStr ''B'']) i c)
   \<and> getConsensusResult
       \<lparr>VOTE_MARGIN_K = 2, MAX_ATTEMPTS_PER_STEP = 6, BATCH_SIZE = 4,
        ENABLE_PARALLEL = True, EARLY_TERMINATION = False, DEV_MODE = False\<rparr>
       (ballots [JStr ''A'', JStr ''A'', JStr ''B'', JStr ''B'', JStr ''B'', JStr ''B''])
     = Some (Inr \<lparr>outcome_value = JStr ''B'', voteMargin = 2, totalVotes = 6, attempts = 6\<rparr>)"
proof -
  let ?cfg = "\<lparr>VOTE_MARGIN_K = 2, MAX_ATTEMPTS_PER_STEP = 6, BATCH_SIZE = 4,
        ENABLE_PARALLEL = True, EARLY_TERMINATION = False, DEV_MODE = False\<rparr>"
  let ?agent = "ballots [JStr ''A'', JStr ''A'', JStr ''B'', JStr ''B'', JStr ''B'', JStr ''B'']"
  have r: "reaches 2 ?agent 2 [CHR 0x22, CHR ''A'', CHR 0x22]"
    by code_simp
  have seq: "getConsensusResultSequential ?cfg ?agent
      = Inr \<lparr>outcome_value = JStr ''A'', voteMargin = 2, totalVotes = 2, attempts = 2\<rparr>"
    by code_simp
  from sequential_Inr [OF seq] have none: "\<forall>i<2. \<forall>c. \<not> reaches 2 ?agent i c"
    by (simp del: ballots_def)
  have res: "getConsensusResult ?cfg ?agent
      = Some (Inr \<lparr>outcome_value = JStr ''B'', voteMargin = 2, totalVotes = 6, attempts = 6\<rparr>)"
    by code_simp
  from r none res show ?thesis by blast
qed


subsection \<open>Leaders that stay close\<close>

lemma close_leaders_undecided:
  fixes K :: int
  assumes "0 < tally_of agent n w \<longrightarrow>
      (\<exists>c. c \<noteq> w \<and> int (tally_of agent n w) - int (tally_of agent n c) < K)"
  shows "\<not> reaches K agent n w"
proof
  assume r: "reaches K agent n w"
  then have pos: "0 < tally_of agent n w"
    and others: "\<And>c. c \<noteq> w \<Longrightarrow> K \<le> int (tally_of agent n w) - int (tally_of agent n c)"
    unfolding reaches_iff by simp_all
  from assms pos obtain c where "c \<noteq> w"
    and "int (tally_of agent n w) - int (tally_of agent n c) < K"
    by blast
  with others [of c] show False by simp
qed

text \<open>
  Claim C3, as amended. For every margin \<open>K\<close>: when, after each attempt up to the
  ceiling, every candidate with votes has another candidate less than \<open>K\<close> votes behind
  it, the winning condition is never satisfied, and the engine, in every mode, consumes
  the attempt ceiling and fails with the error that names it. With \<open>K\<close> at least 2,
  worker results that alternate between two candidates are such a sequence. And for
  every \<open>K\<close> of at least 1, a candidate tied with another one does not satisfy the
  condition.
\<close>

theorem close_leaders_unresolved:
  assumes "ENABLE_PARALLEL cfg \<longrightarrow> 1 \<le> BATCH_SIZE cfg"
  shows "((\<forall>n\<le>MAX_ATTEMPTS_PER_STEP cfg. \<forall>w. 0 < tally_of agent n w \<longrightarrow>
             (\<exists>c. c \<noteq> w \<and>
                  int (tally_of agent n w) - int (tally_of agent n c) < VOTE_MARGIN_K cfg)) \<longrightarrow>
          getConsensusResult cfg agent =
            Some (Inl (Error (''Failed to reach consensus after '' @
                              digits10 (MAX_ATTEMPTS_PER_STEP cfg) @ '' attempts.''))))
       \<and> (\<forall>a b. 2 \<le> VOTE_MARGIN_K cfg \<and> a \<noteq> JNull \<and> b \<noteq> JNull \<and>
             canonicalStringify a \<noteq> canonicalStringify b \<and>
             (\<forall>i<MAX_ATTEMPTS_PER_STEP cfg. agent i = (if even i then a else b)) \<longrightarrow>
          getConsensusResult cfg agent =
            Some (Inl (Error (''Failed to reach consensus after '' @
                              digits10 (MAX_ATTEMPTS_PER_STEP cfg) @ '' attempts.''))))
       \<and> (\<forall>K n w c. 1 \<le> K \<and> c \<noteq> w \<and> tally_of agent n w = tally_of agent n c
             \<longrightarrow> \<not> reaches K agent n w)"
proof (intro conjI allI impI)
  assume close: "\<forall>n\<le>MAX_ATTEMPTS_PER_STEP cfg. \<forall>w. 0 < tally_of agent n w \<longrightarrow>
             (\<exists>c. c \<noteq> w \<and>
                  int (tally_of agent n w) - int (tally_of agent n c) < VOTE_MARGIN_K cfg)"
  have "\<forall>j\<le>MAX_ATTEMPTS_PER_STEP cfg. \<forall>c. \<not> reaches (VOTE_MARGIN_K cfg) agent j c"
    using close close_leaders_undecided [where K = "VOTE_MARGIN_K cfg" and agent = agent] by blast
  from consensus_unresolved [OF assms this]
  show "getConsensusResult cfg agent =
            Some (Inl (Error (''Failed to reach consensus after '' @
                              digits10 (MAX_ATTEMPTS_PER_STEP cfg) @ '' attempts.'')))"
    by (simp add: unresolved_def)
next
  fix a b
  assume alt: "2 \<le> VOTE_MARGIN_K cfg \<and> a \<noteq> JNull \<and> b \<noteq> JNull \<and>
             canonicalStringify a \<noteq> canonicalStringify b \<and>
             (\<forall>i<MAX_ATTEMPTS_PER_STEP cfg. agent i = (if even i then a else b))"
  have "\<not> reaches (VOTE_MARGIN_K cfg) agent j c" if "j \<le> MAX_ATTEMPTS_PER_STEP cfg" for j c
  proof (rule alternating_undecided [of _ a b])
    from alt show "2 \<le> VOTE_MARGIN_K cfg" "a \<noteq> JNull" "b \<noteq> JNull"
      "canonicalStringify a \<noteq> canonicalStringify b"
      by simp_all
    from alt that show "\<forall>i<j. agent i = (if even i then a else b)"
      by simp
  qed
  then have "\<forall>j\<le>MAX_ATTEMPTS_PER_STEP cfg. \<forall>c. \<not> reaches (VOTE_MARGIN_K cfg) agent j c"
    by blast
  from consensus_unresolved [OF assms this]
  show "getConsensusResult cfg agent =
            Some (Inl (Error (''Failed to reach consensus after '' @
                              digits10 (MAX_ATTEMPTS_PER_STEP cfg) @ '' attempts.'')))"
    by (simp add: unresolved_def)
next
  fix K :: int and n w c
  assume "1 \<le> K \<and> c \<noteq> w \<and> tally_of agent n w = tally_of agent n c"
  then show "\<not> reaches K agent n w"
    unfolding reaches_iff by fastforce
qed

theorem close_leaders_unresolved_witness:
  "getConsensusResult
     \<lparr>VOTE_MARGIN_K = 2, MAX_ATTEMPTS_PER_STEP = 6, BATCH_SIZE = 4, ENABLE_PARALLEL = True,
      EARLY_TERMINATION = False, DEV_MODE = False\<rparr>
     (ballots [JStr ''A'', JNull, JStr ''B'', JStr ''B'', JStr ''A'', JNull])
   = Some (Inl (Error ''Failed to reach consensus after 6 attempts.''))
   \<and> getConsensusResult
     \<lparr>VOTE_MARGIN_K = 2, MAX_ATTEMPTS_PER_STEP = 6, BATCH_SIZE = 4, ENABLE_PARALLEL = False,
      EARLY_TERMINATION = True, DEV_MODE = False\<rparr>
     (\<lambda>i. if even i then JStr ''A'' else JStr ''B'')
   = Some (Inl (Error ''Failed to reach consensus after 6 attempts.''))
   \<and> \<not> reaches 1 (ballots [JStr ''A'', JStr ''B'']) 2 [CHR 0x22, CHR ''A'', CHR 0x22]"
proof -
  let ?exh = "\<lparr>VOTE_MARGIN_K = 2, MAX_ATTEMPTS_PER_STEP = 6, BATCH_SIZE = 4, ENABLE_PARALLEL = True,
      EARLY_TERMINATION = False, DEV_MODE = False\<rparr>"
  let ?seq = "\<lparr>VOTE_MARGIN_K = 2, MAX_ATTEMPTS_PER_STEP = 6, BATCH_SIZE = 4, ENABLE_PARALLEL = False,
      EARLY_TERMINATION = True, DEV_MODE = False\<rparr>"
  let ?bs = "[JStr ''A'', JNull, JStr ''B'', JStr ''B'', JStr ''A'', JNull]"
  let ?A = "[CHR 0x22, CHR ''A'', CHR 0x22]"
  let ?B = "[CHR 0x22, CHR ''B'', CHR 0x22]"
  have d: "digits10 6 = ''6''"
    by code_simp
  have qA: "quote_string ''A'' = ?A" and qB: "quote_string ''B'' = ?B"
    by (simp_all add: quote_string_def quote_char_def)
  have batch: "ENABLE_PARALLEL ?exh \<longrightarrow> 1 \<le> BATCH_SIZE ?exh" by simp
  have close: "\<forall>n\<le>MAX_ATTEMPTS_PER_STEP ?exh. \<forall>w. 0 < tally_of (ballots ?bs) n w \<longrightarrow>
      (\<exists>c. c \<noteq> w \<and>
           int (tally_of (ballots ?bs) n w) - int (tally_of (ballots ?bs) n c) < VOTE_MARGIN_K ?exh)"
  proof (intro allI impI)
    fix n w
    assume n: "n \<le> MAX_ATTEMPTS_PER_STEP ?exh" and pos: "0 < tally_of (ballots ?bs) n w"
    from n consider "n = 0" | "n = 1" | "n = 2" | "n = 3" | "n = 4" | "n = 5" | "n = 6"
      by (simp add: le_Suc_eq numeral_eq_Suc) blast
    then have "(if w = ?A then ?B else ?A) \<noteq> w \<and>
        int (tally_of (ballots ?bs) n w) - int (tally_of (ballots ?bs) n (if w = ?A then ?B else ?A)) < 2"
      using pos unfolding tally_of_ballots
      by cases (simp_all add: qA qB split: if_splits)
    then show "\<exists>c. c \<noteq> w \<and>
        int (tally_of (ballots ?bs) n w) - int (tally_of (ballots ?bs) n c) < VOTE_MARGIN_K ?exh"
      by (intro exI [of _ "if w = ?A then ?B else ?A"]) simp
  qed
  have one: "getConsensusResult ?exh (ballots ?bs)
      = Some (Inl (Error ''Failed to reach consensus after 6 attempts.''))"
    using close_leaders_unresolved [OF batch, of "ballots ?bs"] close
    by (simp add: d del: ballots_def)
  have seq: "ENABLE_PARALLEL ?seq \<longrightarrow> 1 \<le> BATCH_SIZE ?seq" by simp
  have alt: "2 \<le> VOTE_MARGIN_K ?seq \<and> JStr ''A'' \<noteq> JNull \<and> JStr ''B'' \<noteq> JNull \<and>
      canonicalStringify (JStr ''A'') \<noteq> canonicalStringify (JStr ''B'') \<and>
      (\<forall>i<MAX_ATTEMPTS_PER_STEP ?seq.
         (\<lambda>i. if even i then JStr ''A'' else JStr ''B'') i = (if even i then JStr ''A'' else JStr ''B''))"
    by (simp add: qA qB)
  have two: "getConsensusResult ?seq (\<lambda>i. if even i then JStr ''A'' else JStr ''B'')
      = Some (Inl (Error ''Failed to reach consensus after 6 attempts.''))"
    using close_leaders_unresolved [OF seq, THEN conjunct2, THEN conjunct1, rule_format,
        where agent = "\<lambda>i. if even i then JStr ''A'' else JStr ''B''"
          and a = "JStr ''A''" and b = "JStr ''B''", OF alt]
    by (simp add: d)
  have tie: "1 \<le> (1 :: int) \<and> ?B \<noteq> ?A \<and>
      tally_of (ballots [JStr ''A'', JStr ''B'']) 2 ?A = tally_of (ballots [JStr ''A'', JStr ''B'']) 2 ?B"
    unfolding tally_of_ballots by (simp add: qA qB)
  have three: "\<not> reaches 1 (ballots [JStr ''A'', JStr ''B'']) 2 ?A"
    by (rule close_leaders_unresolved [OF seq, THEN conjunct2, THEN conjunct2, rule_format,
        where agent = "ballots [JStr ''A'', JStr ''B'']" and K = 1 and n = 2
          and w = ?A and c = ?B, OF tie])
  from one two three show ?thesis by blast
qed

text \<open>
  Against C3 as stated: with \<open>K = 1\<close> the alternating results A, B, A, B, A, B decide
  in the sequential strategy, for A after the first result with margin 1: the count of
  a runner-up that does not exist is taken as 0.
\<close>

theorem alternating_candidates_K1_decides:
  "getConsensusResultSequential
     \<lparr>VOTE_MARGIN_K = 1, MAX_ATTEMPTS_PER_STEP = 6, BATCH_SIZE = 4, ENABLE_PARALLEL = False,
      EARLY_TERMINATION = True, DEV_MODE = False\<rparr>
     (ballots [JStr ''A'', JStr ''B'', JStr ''A'', JStr ''B'', JStr ''A'', JStr ''B''])
   = Inr \<lparr>outcome_value = JStr ''A'', voteMargin = 1, totalVotes = 1, attempts = 1\<rparr>"
  by code_simp


subsection \<open>Unresolved consensus ends the run\<close>

text \<open>
  Claim C8, as amended. When no candidate reaches the margin within the attempt
  ceiling of a step, the engine raises the error whose message names the ceiling; the
  step loop writes the failure line of that step, with the step number and that
  message, and ends the process with exit code 1, whatever steps remain; the
  instruction text, the state and the error are printed with the failure only in
  DEV_MODE.
\<close>

theorem unresolved_consensus_is_fatal:
  assumes "ENABLE_PARALLEL cfg \<longrightarrow> 1 \<le> BATCH_SIZE cfg"
    and "\<forall>j\<le>MAX_ATTEMPTS_PER_STEP cfg. \<forall>c.
           \<not> reaches (VOTE_MARGIN_K cfg) (worker i state step) j c"
  shows "getConsensusResult cfg (worker i state step) =
           Some (Inl (Error (''Failed to reach consensus after '' @
                             digits10 (MAX_ATTEMPTS_PER_STEP cfg) @ '' attempts.'')))
       \<and> run_steps cfg worker nsteps i state (step # rest) =
           Some (Step_started (i + 1) nsteps step #
                 Step_failed (i + 1)
                   (Error (''Failed to reach consensus after '' @
                           digits10 (MAX_ATTEMPTS_PER_STEP cfg) @ '' attempts.'')) #
                 (if DEV_MODE cfg
                  then [Dev_step step, Dev_state state,
                        Dev_error (Error (''Failed to reach consensus after '' @
                                          digits10 (MAX_ATTEMPTS_PER_STEP cfg) @ '' attempts.''))]
                  else []),
                 Exit_1, state)"
proof -
  have "getConsensusResult cfg (worker i state step) = Some (unresolved cfg)"
    using assms by (rule consensus_unresolved)
  then show ?thesis
    by (simp add: unresolved_def step_failure_def)
qed

theorem unresolved_consensus_is_fatal_witness:
  "run_steps
     \<lparr>VOTE_MARGIN_K = 2, MAX_ATTEMPTS_PER_STEP = 6, BATCH_SIZE = 4, ENABLE_PARALLEL = True,
      EARLY_TERMINATION = True, DEV_MODE = True\<rparr>
     (\<lambda>i state step n. if even n then JStr ''A'' else JStr ''B'')
     2 0 (initial_state ''task'') [''Add 10'', ''Add 2'']
   = Some ([Step_started 1 2 ''Add 10'',
            Step_failed 1 (Error ''Failed to reach consensus after 6 attempts.''),
            Dev_step ''Add 10'', Dev_state (initial_state ''task''),
            Dev_error (Error ''Failed to reach consensus after 6 attempts.'')],
           Exit_1, initial_state ''task'')"
proof -
  let ?cfg = "\<lparr>VOTE_MARGIN_K = 2, MAX_ATTEMPTS_PER_STEP = 6, BATCH_SIZE = 4, ENABLE_PARALLEL = True,
      EARLY_TERMINATION = True, DEV_MODE = True\<rparr>"
  let ?worker = "\<lambda>(i::nat) (state::state) (step::string) (n::nat). if even n then JStr ''A'' else JStr ''B''"
  have mode: "ENABLE_PARALLEL ?cfg \<longrightarrow> 1 \<le> BATCH_SIZE ?cfg" by simp
  have ne: "canonicalStringify (JStr ''A'') \<noteq> canonicalStringify (JStr ''B'')"
    by (simp add: quote_string_def quote_char_def)
  have never: "\<forall>j\<le>MAX_ATTEMPTS_PER_STEP ?cfg. \<forall>c.
      \<not> reaches (VOTE_MARGIN_K ?cfg) (?worker 0 (initial_state ''task'') ''Add 10'') j c"
    using alternating_undecided [of 2 "JStr ''A''" "JStr ''B''" _ "\<lambda>n. if even n then JStr ''A'' else JStr ''B''", OF _ _ _ ne]
    by simp
  have d: "digits10 6 = ''6''"
    by code_simp
  from unresolved_consensus_is_fatal [of ?cfg ?worker 0 "initial_state ''task''" "''Add 10''" 2 "[''Add 2'']", OF mode never]
  show ?thesis
    by (simp add: d del: run_steps.simps)
qed

theorem failure_report_without_instruction:
  "maker
     \<lparr>VOTE_MARGIN_K = 2, MAX_ATTEMPTS_PER_STEP = 6, BATCH_SIZE = 4, ENABLE_PARALLEL = True,
      EARLY_TERMINATION = True, DEV_MODE = False\<rparr>
     (\<lambda>i state step n. if even n then JStr ''A'' else JStr ''B'')
     ''task'' [''Add 10'', ''Add 2'']
   = Some ([Step_started 1 2 ''Add 10'',
            Step_failed 1 (Error ''Failed to reach consensus after 6 attempts.'')],
           Exit_1, initial_state ''task'')
   \<and> step_failure
       \<lparr>VOTE_MARGIN_K = 2, MAX_ATTEMPTS_PER_STEP = 6, BATCH_SIZE = 4, ENABLE_PARALLEL = True,
        EARLY_TERMINATION = True, DEV_MODE = False\<rparr>
       0 ''Add 10'' (initial_state ''task'') (Error ''Failed to reach consensus after 6 attempts.'')
     = [Step_failed 1 (Error ''Failed to reach consensus after 6 attempts.'')]"
  by code_simp


subsection \<open>The state merge\<close>

lemma spread_Cons: "spread obj ((k, v) # source) = spread (obj_set obj k v) source"
  by (simp add: spread_def)

lemma spread_distinct: "distinct (map fst obj) \<Longrightarrow> distinct (map fst (spread obj source))"
proof (induction source arbitrary: obj)
  case Nil
  then show ?case by (simp add: spread_def)
next
  case (Cons e source)
  obtain k v where e: "e = (k, v)" by (cases e)
  from Cons.IH [of "obj_set obj k v"] Cons.prems show ?case
    unfolding e spread_Cons by (simp add: obj_set_distinct)
qed

lemma spread_lookup_other:
  "k \<notin> fst ` set source \<Longrightarrow> map_of (spread obj source) k = map_of obj k"
proof (induction source arbitrary: obj)
  case Nil
  then show ?case by (simp add: spread_def)
next
  case (Cons e source)
  obtain k' v where e: "e = (k', v)" by (cases e)
  from Cons.prems have "k \<noteq> k'" "k \<notin> fst ` set source"
    by (auto simp: e)
  with Cons.IH [of "obj_set obj k' v"] show ?case
    unfolding e spread_Cons by (simp add: obj_set_lookup)
qed

lemma spread_lookup:
  "distinct (map fst source) \<Longrightarrow>
   map_of (spread obj source) k = (case map_of source k of Some v \<Rightarrow> Some v | None \<Rightarrow> map_of obj k)"
proof (induction source arbitrary: obj)
  case Nil
  then show ?case by (simp add: spread_def)
next
  case (Cons e source)
  obtain k' v where e: "e = (k', v)" by (cases e)
  from Cons.prems have d: "k' \<notin> fst ` set source" "distinct (map fst source)"
    by (auto simp: e)
  show ?case
  proof (cases "k = k'")
    case True
    with d(1) have "map_of (spread (obj_set obj k' v) source) k = map_of (obj_set obj k' v) k"
      by (intro spread_lookup_other) simp
    with True show ?thesis
      unfolding e spread_Cons by (simp add: obj_set_lookup)
  next
    case False
    with Cons.IH [OF d(2), of "obj_set obj k' v"] show ?thesis
      unfolding e spread_Cons by (simp add: obj_set_lookup split: option.splits)
  qed
qed

lemma spread_copy:
  assumes "distinct (map fst state)"
  shows "map_of (spread [] state) = map_of state"
    and "distinct (map fst (spread [] state))"
proof -
  show "map_of (spread [] state) = map_of state"
    using spread_lookup [OF assms, of "[]"] by (auto simp: fun_eq_iff split: option.splits)
  show "distinct (map fst (spread [] state))"
    by (rule spread_distinct) simp
qed

lemma slice_last_length: "length (slice_last k xs) \<le> k"
  by (simp add: slice_last_def)

lemma slice_last_short: "length xs \<le> k \<Longrightarrow> slice_last k xs = xs"
  by (simp add: slice_last_def)

lemma slice_last_append: "slice_last k (slice_last k xs @ ys) = slice_last k (xs @ ys)"
proof (cases "length xs \<le> k")
  case True
  then show ?thesis by (simp add: slice_last_short)
next
  case False
  then have "length (drop (length xs - k) xs) = k" by simp
  then have "slice_last k (drop (length xs - k) xs @ ys) = drop (length ys) (drop (length xs - k) xs @ ys)"
    by (simp add: slice_last_def del: length_drop)
  also have "\<dots> = drop (length ys) (drop (length xs - k) (xs @ ys))"
    by simp
  also have "\<dots> = drop (length xs + length ys - k) (xs @ ys)"
    using False by (simp del: drop_append add: add.commute)
  finally show ?thesis
    by (simp add: slice_last_def)
qed

lemma merge_state_facts:
  assumes d: "distinct (map fst state)" and h: "map_of state ''history'' = Some (JArr hist)"
  obtains state' where "merge_state state val = Inr state'"
    and "distinct (map fst state')"
    and "map_of state' ''history'' = Some (JArr (slice_last 5 (hist @ [val])))"
    and "\<And>k. k \<noteq> ''history'' \<Longrightarrow> map_of state' k =
           (case val of
              JObj props \<Rightarrow> map_of (spread (spread [] state) props) k
            | _ \<Rightarrow> if k = ''current_value'' then Some val else map_of state k)"
proof -
  let ?hist' = "JArr (slice_last 5 (hist @ [val]))"
  define base where "base =
    (case val of
       JObj props \<Rightarrow> spread (spread [] state) props
     | _ \<Rightarrow> obj_set (spread [] state) ''current_value'' val)"
  have m: "merge_state state val = Inr (obj_set base ''history'' ?hist')"
    using h by (cases val) (simp_all add: merge_state_def base_def)
  have db: "distinct (map fst base)"
    unfolding base_def using spread_copy(2) [OF d]
    by (cases val) (simp_all add: spread_distinct obj_set_distinct)
  have other: "map_of (obj_set base ''history'' ?hist') k =
           (case val of
              JObj props \<Rightarrow> map_of (spread (spread [] state) props) k
            | _ \<Rightarrow> if k = ''current_value'' then Some val else map_of state k)"
    if "k \<noteq> ''history''" for k
    using that unfolding base_def
    by (cases val) (simp_all add: obj_set_lookup spread_copy(1) [OF d])
  show thesis
  proof (rule that [of "obj_set base ''history'' ?hist'"])
    show "merge_state state val = Inr (obj_set base ''history'' ?hist')" by (rule m)
    show "distinct (map fst (obj_set base ''history'' ?hist'))"
      using db by (rule obj_set_distinct)
    show "map_of (obj_set base ''history'' ?hist') ''history'' = Some ?hist'"
      by (simp add: obj_set_lookup)
    show "\<And>k. k \<noteq> ''history'' \<Longrightarrow> map_of (obj_set base ''history'' ?hist') k =
           (case val of
              JObj props \<Rightarrow> map_of (spread (spread [] state) props) k
            | _ \<Rightarrow> if k = ''current_value'' then Some val else map_of state k)"
      by (rule other)
  qed
qed

text \<open>
  Claim C10. When the state's history is the buffer \<open>hist\<close> and the winning value
  is an object, the merge succeeds; the new state's history is the buffer with the value
  appended, cut to its last five entries, whatever \<^verbatim>\<open>history\<close> property the value
  carries; every other property of the value is in the new state, and the properties
  of the old state that the value does not carry are unchanged.
\<close>

theorem history_is_the_buffer:
  assumes "distinct (map fst state)" and "map_of state ''history'' = Some (JArr hist)"
    and "distinct (map fst props)"
  shows "\<exists>state'. merge_state state (JObj props) = Inr state' \<and>
           map_of state' ''history'' = Some (JArr (slice_last 5 (hist @ [JObj props]))) \<and>
           (\<forall>k. k \<noteq> ''history'' \<longrightarrow>
                map_of state' k =
                  (case map_of props k of Some v \<Rightarrow> Some v | None \<Rightarrow> map_of state k))"
proof (rule merge_state_facts [OF assms(1,2), of "JObj props"])
  fix state'
  assume s: "merge_state state (JObj props) = Inr state'"
    "map_of state' ''history'' = Some (JArr (slice_last 5 (hist @ [JObj props])))"
    and other: "\<And>k. k \<noteq> ''history'' \<Longrightarrow> map_of state' k =
           (case JObj props of
              JObj props \<Rightarrow> map_of (spread (spread [] state) props) k
            | _ \<Rightarrow> if k = ''current_value'' then Some (JObj props) else map_of state k)"
  have "map_of state' k = (case map_of props k of Some v \<Rightarrow> Some v | None \<Rightarrow> map_of state k)"
    if "k \<noteq> ''history''" for k
    using other [OF that] spread_lookup [OF assms(3), of "spread [] state" k]
    by (simp add: spread_copy(1) [OF assms(1)] split: option.splits)
  with s show ?thesis by blast
qed

theorem history_is_the_buffer_witness:
  "merge_state (initial_state ''task'')
     (JObj [(''history'', JStr ''replaced''), (''original_task'', JStr ''changed''), (''x'', JNum 1)])
   = Inr [(''original_task'', JStr ''changed''),
          (''history'', JArr [JObj [(''history'', JStr ''replaced''),
                                    (''original_task'', JStr ''changed''), (''x'', JNum 1)]]),
          (''x'', JNum 1)]
   \<and> map_of [(''original_task'', JStr ''changed''),
          (''history'', JArr [JObj [(''history'', JStr ''replaced''),
                                    (''original_task'', JStr ''changed''), (''x'', JNum 1)]]),
          (''x'', JNum 1)] ''history''
     = Some (JArr (slice_last 5 ([] @ [JObj [(''history'', JStr ''replaced''),
                                    (''original_task'', JStr ''changed''), (''x'', JNum 1)]])))"
proof -
  let ?props = "[(''history'', JStr ''replaced''), (''original_task'', JStr ''changed''), (''x'', JNum 1)]"
  have d: "distinct (map fst (initial_state ''task''))"
    and h: "map_of (initial_state ''task'') ''history'' = Some (JArr [])"
    and p: "distinct (map fst ?props)"
    by (simp_all add: initial_state_def)
  have m: "merge_state (initial_state ''task'') (JObj ?props)
    = Inr [(''original_task'', JStr ''changed''),
          (''history'', JArr [JObj ?props]), (''x'', JNum 1)]"
    by code_simp
  from history_is_the_buffer [OF d h p] m show ?thesis
    by (simp del: initial_state_def)
qed


subsection \<open>The state across the steps\<close>

lemma merge_state_keeps:
  assumes "distinct (map fst state)" and "map_of state ''history'' = Some (JArr hist)"
    and "merge_state state val = Inr state'"
  shows "distinct (map fst state')"
    and "map_of state' ''history'' = Some (JArr (slice_last 5 (hist @ [val])))"
    and "\<not> has_property ''original_task'' val \<Longrightarrow>
           map_of state' ''original_task'' = map_of state ''original_task''"
proof -
  have all: "distinct (map fst state') \<and>
      map_of state' ''history'' = Some (JArr (slice_last 5 (hist @ [val]))) \<and>
      map_of state' ''original_task'' =
        (case val of
           JObj props \<Rightarrow> map_of (spread (spread [] state) props) ''original_task''
         | _ \<Rightarrow> map_of state ''original_task'')"
  proof (rule merge_state_facts [OF assms(1,2), of val])
    fix s
    assume m: "merge_state state val = Inr s" and d: "distinct (map fst s)"
      and h: "map_of s ''history'' = Some (JArr (slice_last 5 (hist @ [val])))"
      and other: "\<And>k. k \<noteq> ''history'' \<Longrightarrow> map_of s k =
           (case val of
              JObj props \<Rightarrow> map_of (spread (spread [] state) props) k
            | _ \<Rightarrow> if k = ''current_value'' then Some val else map_of state k)"
    from m assms(3) have eq: "s = state'" by simp
    have "map_of s ''original_task'' =
        (case val of
           JObj props \<Rightarrow> map_of (spread (spread [] state) props) ''original_task''
         | _ \<Rightarrow> map_of state ''original_task'')"
      using other [of "''original_task''"] by (cases val) simp_all
    with d h show ?thesis unfolding eq by simp
  qed
  from all show "distinct (map fst state')" by simp
  from all show "map_of state' ''history'' = Some (JArr (slice_last 5 (hist @ [val])))" by simp
  assume "\<not> has_property ''original_task'' val"
  with all show "map_of state' ''original_task'' = map_of state ''original_task''"
    by (cases val) (simp_all add: spread_lookup_other spread_copy(1) [OF assms(1)])
qed

lemma merge_state_succeeds:
  assumes "distinct (map fst state)" and "map_of state ''history'' = Some (JArr hist)"
  shows "\<exists>state'. merge_state state val = Inr state'"
  by (rule merge_state_facts [OF assms, of val]) blast

lemma step_outputs_failure [simp]: "step_outputs (step_failure cfg i step state err) = []"
  by (simp add: step_failure_def)

lemma step_outputs_success [simp]:
  "step_outputs (step_success cfg i out @ events) = outcome_value out # step_outputs events"
  by (simp add: step_success_def)

lemma run_steps_invariant:
  assumes "run_steps cfg worker nsteps i state steps = Some (events, status, final)"
    and "distinct (map fst state)"
    and "map_of state ''history'' = Some (JArr hist)"
    and "length hist \<le> 5"
  shows "map_of final ''history'' = Some (JArr (slice_last 5 (hist @ step_outputs events)))
     \<and> ((\<forall>v\<in>set (step_outputs events). \<not> has_property ''original_task'' v) \<longrightarrow>
          map_of final ''original_task'' = map_of state ''original_task'')"
  using assms
proof (induction steps arbitrary: i state hist events)
  case Nil
  from Nil.prems(1) have "events = [Final_result state]" "final = state"
    by auto
  with Nil.prems(3,4) show ?case by (simp add: slice_last_short)
next
  case (Cons step rest)
  show ?case
  proof (cases "getConsensusResult cfg (worker i state step)")
    case None
    with Cons.prems(1) show ?thesis by simp
  next
    case (Some r)
    show ?thesis
    proof (cases r)
      case (Inl err)
      with Some Cons.prems(1)
      have "events = Step_started (i + 1) nsteps step # step_failure cfg i step state err"
        and "final = state"
        by auto
      with Cons.prems(3,4) show ?thesis by (simp add: slice_last_short)
    next
      case (Inr out)
      from merge_state_succeeds [OF Cons.prems(2,3), of "outcome_value out"]
      obtain state' where m: "merge_state state (outcome_value out) = Inr state'" by blast
      note k = merge_state_keeps [OF Cons.prems(2,3) m]
      from Cons.prems(1) Some Inr m
      have "map_option
              (\<lambda>(events, ending). (Step_started (i + 1) nsteps step # step_success cfg i out @ events, ending))
              (run_steps cfg worker nsteps (i + 1) state' rest) = Some (events, status, final)"
        by simp
      then obtain events' where
        run: "run_steps cfg worker nsteps (i + 1) state' rest = Some (events', status, final)"
        and ev: "events = Step_started (i + 1) nsteps step # step_success cfg i out @ events'"
        by (cases "run_steps cfg worker nsteps (i + 1) state' rest") auto
      have outs: "step_outputs events = outcome_value out # step_outputs events'"
        unfolding ev by simp
      have len: "length (slice_last 5 (hist @ [outcome_value out])) \<le> 5"
        by (rule slice_last_length)
      note IH = Cons.IH [OF run k(1,2) len]
      have sl: "slice_last 5 (slice_last 5 (hist @ [outcome_value out]) @ step_outputs events')
          = slice_last 5 (hist @ step_outputs events)"
        unfolding outs using slice_last_append [of 5 "hist @ [outcome_value out]" "step_outputs events'"]
        by simp
      from IH have "map_of final ''history'' = Some (JArr (slice_last 5 (hist @ step_outputs events)))"
        unfolding sl by simp
      moreover have "map_of final ''original_task'' = map_of state ''original_task''"
        if "\<forall>v\<in>set (step_outputs events). \<not> has_property ''original_task'' v"
      proof -
        from that have "\<not> has_property ''original_task'' (outcome_value out)"
          and "\<forall>v\<in>set (step_outputs events'). \<not> has_property ''original_task'' v"
          unfolding outs by simp_all
        with IH k(3) show ?thesis by simp
      qed
      ultimately show ?thesis by blast
    qed
  qed
qed

text \<open>
  Claim C9, as amended. In the state a run ends with (after its last successful merge),
  the history holds the outputs of the completed steps, in order, cut to the last five;
  and the original task text is the prompt, unless the output of a step was an object
  with a property \<^verbatim>\<open>original_task\<close>.
\<close>

theorem state_invariant:
  assumes "maker cfg worker prompt steps = Some (events, status, final)"
  shows "map_of final ''history'' = Some (JArr (slice_last 5 (step_outputs events)))
     \<and> length (slice_last 5 (step_outputs events)) \<le> 5
     \<and> ((\<forall>v\<in>set (step_outputs events). \<not> has_property ''original_task'' v) \<longrightarrow>
          map_of final ''original_task'' = Some (JStr prompt))"
proof -
  have "distinct (map fst (initial_state prompt))"
    and "map_of (initial_state prompt) ''history'' = Some (JArr [])"
    and "map_of (initial_state prompt) ''original_task'' = Some (JStr prompt)"
    by (simp_all add: initial_state_def)
  with run_steps_invariant [of cfg worker "length steps" 0 "initial_state prompt" steps events status final "[]"]
    assms
  show ?thesis
    by (simp add: maker_def slice_last_length)
qed

theorem state_invariant_witness:
  "maker
     \<lparr>VOTE_MARGIN_K = 1, MAX_ATTEMPTS_PER_STEP = 6, BATCH_SIZE = 4, ENABLE_PARALLEL = True,
      EARLY_TERMINATION = True, DEV_MODE = False\<rparr>
     (\<lambda>i state step n. JNum (int i))
     ''task'' [''s1'', ''s2'', ''s3'', ''s4'', ''s5'', ''s6'']
   = Some ([Step_started 1 6 ''s1'',
            Step_complete 1 (JNum 0) None,
            Step_started 2 6 ''s2'',
            Step_complete 2 (JNum 1) None,
            Step_started 3 6 ''s3'',
            Step_complete 3 (JNum 2) None,
            Step_started 4 6 ''s4'',
            Step_complete 4 (JNum 3) None,
            Step_started 5 6 ''s5'',
            Step_complete 5 (JNum 4) None,
            Step_started 6 6 ''s6'',
            Step_complete 6 (JNum 5) None,
            Final_result [(''original_task'', JStr ''task''), (''history'', JArr [JNum 1, JNum 2, JNum 3, JNum 4, JNum 5]), (''current_value'', JNum 5)]],
           Completed,
           [(''original_task'', JStr ''task''), (''history'', JArr [JNum 1, JNum 2, JNum 3, JNum 4, JNum 5]), (''current_value'', JNum 5)])
   \<and> map_of [(''original_task'', JStr ''task''), (''history'', JArr [JNum 1, JNum 2, JNum 3, JNum 4, JNum 5]), (''current_value'', JNum 5)] ''history''
     = Some (JArr [JNum 1, JNum 2, JNum 3, JNum 4, JNum 5])
   \<and> map_of [(''original_task'', JStr ''task''), (''history'', JArr [JNum 1, JNum 2, JNum 3, JNum 4, JNum 5]), (''current_value'', JNum 5)] ''original_task'' = Some (JStr ''task'')"
proof -
  let ?cfg = "\<lparr>VOTE_MARGIN_K = 1, MAX_ATTEMPTS_PER_STEP = 6, BATCH_SIZE = 4, ENABLE_PARALLEL = True,
      EARLY_TERMINATION = True, DEV_MODE = False\<rparr>"
  let ?worker = "\<lambda>(i::nat) (state::state) (step::string) (n::nat). JNum (int i)"
  let ?events = "[Step_started 1 6 ''s1'',
            Step_complete 1 (JNum 0) None,
            Step_started 2 6 ''s2'',
            Step_complete 2 (JNum 1) None,
            Step_started 3 6 ''s3'',
            Step_complete 3 (JNum 2) None,
            Step_started 4 6 ''s4'',
            Step_complete 4 (JNum 3) None,
            Step_started 5 6 ''s5'',
            Step_complete 5 (JNum 4) None,
            Step_started 6 6 ''s6'',
            Step_complete 6 (JNum 5) None,
            Final_result [(''original_task'', JStr ''task''), (''history'', JArr [JNum 1, JNum 2, JNum 3, JNum 4, JNum 5]), (''current_value'', JNum 5)]]"
  let ?final = "[(''original_task'', JStr ''task''), (''history'', JArr [JNum 1, JNum 2, JNum 3, JNum 4, JNum 5]), (''current_value'', JNum 5)]"
  have run: "maker ?cfg ?worker ''task'' [''s1'', ''s2'', ''s3'', ''s4'', ''s5'', ''s6'']
      = Some (?events, Completed, ?final)"
    by code_simp
  from state_invariant [OF run] run show ?thesis
    by (simp add: slice_last_def)
qed

theorem original_task_overwritten:
  "maker
     \<lparr>VOTE_MARGIN_K = 1, MAX_ATTEMPTS_PER_STEP = 6, BATCH_SIZE = 4, ENABLE_PARALLEL = True,
      EARLY_TERMINATION = True, DEV_MODE = False\<rparr>
     (\<lambda>i state step n. JObj [(''original_task'', JStr ''changed'')])
     ''task'' [''step one'']
   = Some ([Step_started 1 1 ''step one'',
            Step_complete 1 (JObj [(''original_task'', JStr ''changed'')]) None,
            Final_result [(''original_task'', JStr ''changed''),
                          (''history'', JArr [JObj [(''original_task'', JStr ''changed'')]])]],
           Completed,
           [(''original_task'', JStr ''changed''),
            (''history'', JArr [JObj [(''original_task'', JStr ''changed'')]])])"
  by code_simp


subsection \<open>Decoding a canonical key\<close>


































subsection \<open>The outcome of a decided step\<close>






text \<open>
  A key is written into the canonical encoding without escaping: the encoding of an
  object with a double quote in a key is not a JSON text, and the engine, deciding for
  it, throws the SyntaxError of \<^verbatim>\<open>JSON.parse\<close> instead of returning an outcome.
\<close>

lemma unescaped_key_not_decoded:
  "getConsensusResult
     \<lparr>VOTE_MARGIN_K = 1, MAX_ATTEMPTS_PER_STEP = 6, BATCH_SIZE = 4, ENABLE_PARALLEL = False,
      EARLY_TERMINATION = True, DEV_MODE = False\<rparr>
     (ballots [JObj [([CHR ''a'', CHR 0x22, CHR ''b''], JNum 1)]])
   = Some (Inl SyntaxError)"
  by code_simp

subsection \<open>The admission loop\<close>

lemma process_loop_empty:
  "queue s = [] \<Longrightarrow> process_loop t s = s\<lparr>processing := False\<rparr>"
  by (subst process_loop.simps) simp

lemma process_loop_admit:
  assumes "queue s = task # rest"
    and "length (filter (\<lambda>x. t - x < 60000) (requestTimestamps s)) < maxRpm s"
  shows "process_loop t s =
    process_loop t
      (s\<lparr>queue := rest,
         requestTimestamps := filter (\<lambda>x. t - x < 60000) (requestTimestamps s) @ [t],
         started := started s @ [(task, t)]\<rparr>)"
  using assms by (subst process_loop.simps) (simp add: Let_def)

lemma process_loop_sleep:
  assumes "queue s = task # rest"
    and "\<not> length (filter (\<lambda>x. t - x < 60000) (requestTimestamps s)) < maxRpm s"
  shows "\<exists>due. process_loop t s =
    s\<lparr>requestTimestamps := filter (\<lambda>x. t - x < 60000) (requestTimestamps s),
      sleeping := Some due\<rparr>"
proof -
  have "process_loop t s =
    s\<lparr>requestTimestamps := filter (\<lambda>x. t - x < 60000) (requestTimestamps s),
      sleeping := Some (t + (case filter (\<lambda>x. t - x < 60000) (requestTimestamps s) of
                               [] \<Rightarrow> 1
                             | oldestCall # _ \<Rightarrow> 60000 - (t - oldestCall) + 100))\<rparr>"
    using assms by (subst process_loop.simps) (simp add: Let_def)
  then show ?thesis by blast
qed

lemma process_loop_cases [consumes 0, case_names empty admit sleep]:
  fixes P :: "int \<Rightarrow> 'a limiter \<Rightarrow> bool"
  assumes "\<And>t s. queue s = [] \<Longrightarrow> P t s"
    and "\<And>t s task rest.
      queue s = task # rest \<Longrightarrow>
      length (filter (\<lambda>x. t - x < 60000) (requestTimestamps s)) < maxRpm s \<Longrightarrow>
      P t (s\<lparr>queue := rest,
             requestTimestamps := filter (\<lambda>x. t - x < 60000) (requestTimestamps s) @ [t],
             started := started s @ [(task, t)]\<rparr>) \<Longrightarrow>
      P t s"
    and "\<And>t s task rest.
      queue s = task # rest \<Longrightarrow>
      \<not> length (filter (\<lambda>x. t - x < 60000) (requestTimestamps s)) < maxRpm s \<Longrightarrow>
      P t s"
  shows "P t s"
proof (induction t s rule: process_loop.induct)
  case (1 t s)
  show ?case
  proof (cases "queue s")
    case Nil
    then show ?thesis by (rule assms(1))
  next
    case (Cons task rest)
    show ?thesis
    proof (cases "length (filter (\<lambda>x. t - x < 60000) (requestTimestamps s)) < maxRpm s")
      case True
      show ?thesis
        by (rule assms(2) [OF Cons True]) (rule "1.IH" [OF Cons refl refl True])
    next
      case False
      show ?thesis by (rule assms(3) [OF Cons False])
    qed
  qed
qed

lemma process_loop_maxRpm: "maxRpm (process_loop t s) = maxRpm s"
proof (induction t s rule: process_loop_cases)
  case (empty t s)
  then show ?case by (simp add: process_loop_empty)
next
  case (admit t s task rest)
  then show ?case by (simp add: process_loop_admit [OF admit(1,2)])
next
  case (sleep t s task rest)
  from process_loop_sleep [OF sleep(1,2)] show ?case by auto
qed

lemma process_loop_fifo:
  "map fst (started (process_loop t s)) @ queue (process_loop t s) =
   map fst (started s) @ queue s"
proof (induction t s rule: process_loop_cases)
  case (empty t s)
  then show ?case by (simp add: process_loop_empty)
next
  case (admit t s task rest)
  then show ?case by (simp add: process_loop_admit [OF admit(1,2)])
next
  case (sleep t s task rest)
  from process_loop_sleep [OF sleep(1,2)] show ?case by auto
qed

lemma process_loop_idle:
  assumes "processing s" and "sleeping s = None"
  shows "(\<not> processing (process_loop t s) \<longrightarrow> queue (process_loop t s) = []) \<and>
         (sleeping (process_loop t s) \<noteq> None \<longrightarrow> processing (process_loop t s))"
  using assms
proof (induction t s rule: process_loop_cases)
  case (empty t s)
  then show ?case by (simp add: process_loop_empty)
next
  case (admit t s task rest)
  then show ?case by (simp add: process_loop_admit [OF admit(1,2)])
next
  case (sleep t s task rest)
  from process_loop_sleep [OF sleep(1,2)] sleep(3) show ?case by auto
qed

text \<open>
  The recorded timestamps are the admissions that were recent at the last pruning, and
  no window holds more than \<open>maxRpm\<close> admissions: both are kept by the loop.
\<close>

lemma in_window_snoc:
  assumes "length (in_window a stamps) \<le> n"
    and "length (filter (\<lambda>x. t - x < 60000) stamps) < n"
  shows "length (in_window a (stamps @ [t])) \<le> n"
proof (cases "a \<le> t \<and> t < a + 60000")
  case True
  have "length (filter (\<lambda>x. a \<le> x \<and> x < a + 60000) stamps) \<le>
        length (filter (\<lambda>x. t - x < 60000) stamps)"
  proof (induction stamps)
    case Nil
    show ?case by simp
  next
    case (Cons x xs)
    from True Cons show ?case by auto
  qed
  with assms(2) True show ?thesis by (simp add: in_window_def)
next
  case False
  with assms(1) show ?thesis by (auto simp add: in_window_def)
qed

lemma recent_of_recent:
  assumes "c \<le> (t :: int)"
  shows "filter (\<lambda>x. t - x < 60000) (filter (\<lambda>x. c - x < 60000) stamps) =
         filter (\<lambda>x. t - x < 60000) stamps"
proof -
  have "(t - x < 60000 \<and> c - x < 60000) = (t - x < 60000)" for x
    using assms by auto
  then show ?thesis by (simp add: conj_commute)
qed

lemma process_loop_window:
  assumes "\<exists>c\<le>t. requestTimestamps s = filter (\<lambda>x. c - x < 60000) (map snd (started s))"
    and "\<forall>a. length (in_window a (map snd (started s))) \<le> maxRpm s"
  shows "(\<exists>c\<le>t. requestTimestamps (process_loop t s) =
            filter (\<lambda>x. c - x < 60000) (map snd (started (process_loop t s)))) \<and>
         (\<forall>a. length (in_window a (map snd (started (process_loop t s)))) \<le> maxRpm s)"
  using assms
proof (induction t s rule: process_loop_cases)
  case (empty t s)
  then show ?case by (simp add: process_loop_empty)
next
  case (admit t s task rest)
  let ?s' = "s\<lparr>queue := rest,
    requestTimestamps := filter (\<lambda>x. t - x < 60000) (requestTimestamps s) @ [t],
    started := started s @ [(task, t)]\<rparr>"
  from admit.prems(1) obtain c where c: "c \<le> t"
    and r: "requestTimestamps s = filter (\<lambda>x. c - x < 60000) (map snd (started s))"
    by blast
  have pruned: "filter (\<lambda>x. t - x < 60000) (requestTimestamps s) =
                filter (\<lambda>x. t - x < 60000) (map snd (started s))"
    unfolding r by (rule recent_of_recent [OF c])
  have "requestTimestamps ?s' = filter (\<lambda>x. t - x < 60000) (map snd (started ?s'))"
    by (simp add: pruned)
  then have one: "\<exists>c\<le>t. requestTimestamps ?s' =
      filter (\<lambda>x. c - x < 60000) (map snd (started ?s'))"
    by blast
  have two: "\<forall>a. length (in_window a (map snd (started ?s'))) \<le> maxRpm ?s'"
  proof
    fix a
    from admit.prems(2) have w: "length (in_window a (map snd (started s))) \<le> maxRpm s"
      by blast
    from admit.hyps(2) have u: "length (filter (\<lambda>x. t - x < 60000) (map snd (started s))) < maxRpm s"
      by (simp only: pruned)
    from in_window_snoc [OF w u] show "length (in_window a (map snd (started ?s'))) \<le> maxRpm ?s'"
      by simp
  qed
  from admit.IH [OF one two] show ?case
    by (simp add: process_loop_admit [OF admit.hyps(1,2)])
next
  case (sleep t s task rest)
  from sleep.prems(1) obtain c where c: "c \<le> t"
    and r: "requestTimestamps s = filter (\<lambda>x. c - x < 60000) (map snd (started s))"
    by blast
  have pruned: "filter (\<lambda>x. t - x < 60000) (requestTimestamps s) =
                filter (\<lambda>x. t - x < 60000) (map snd (started s))"
    unfolding r by (rule recent_of_recent [OF c])
  from process_loop_sleep [OF sleep.hyps(1,2)] obtain due where
    p: "process_loop t s =
      s\<lparr>requestTimestamps := filter (\<lambda>x. t - x < 60000) (requestTimestamps s),
        sleeping := Some due\<rparr>"
    by blast
  have "requestTimestamps (process_loop t s) =
        filter (\<lambda>x. t - x < 60000) (map snd (started (process_loop t s)))"
    unfolding p by (simp add: pruned)
  then have "\<exists>c\<le>t. requestTimestamps (process_loop t s) =
      filter (\<lambda>x. c - x < 60000) (map snd (started (process_loop t s)))"
    by blast
  moreover from sleep.prems(2)
  have "\<forall>a. length (in_window a (map snd (started (process_loop t s)))) \<le> maxRpm s"
    unfolding p by simp
  ultimately show ?case by blast
qed

subsection \<open>Calls from outside\<close>

lemma limiter_ok_new: "limiter_ok t (RateLimiter n)"
proof -
  have "\<exists>c :: int. c \<le> t" by (rule exI [of _ t]) simp
  then show ?thesis by (simp add: limiter_ok_def RateLimiter_def in_window_def)
qed

lemma process_loop_ok:
  fixes s :: "'a limiter"
  assumes "\<exists>c\<le>t. requestTimestamps s = filter (\<lambda>x. c - x < 60000) (map snd (started s))"
    and "\<forall>a. length (in_window a (map snd (started s))) \<le> maxRpm s"
    and "processing s" and "sleeping s = None"
  shows "limiter_ok t (process_loop t s)"
  using process_loop_window [OF assms(1,2)] process_loop_idle [OF assms(3,4), of t]
  unfolding limiter_ok_def process_loop_maxRpm by blast

lemma perform_ok:
  fixes s :: "'a limiter"
  assumes ok: "limiter_ok t0 s" and le: "t0 \<le> call_time c"
  shows "limiter_ok (call_time c) (perform s c)"
proof -
  from ok obtain c0 where c0: "c0 \<le> t0"
    and r: "requestTimestamps s = filter (\<lambda>x. c0 - x < 60000) (map snd (started s))"
    unfolding limiter_ok_def by blast
  from ok have w: "\<forall>a. length (in_window a (map snd (started s))) \<le> maxRpm s"
    and idle: "\<not> processing s \<Longrightarrow> queue s = []"
    and asleep: "sleeping s \<noteq> None \<Longrightarrow> processing s"
    unfolding limiter_ok_def by blast+
  from c0 le have c0': "c0 \<le> call_time c" by simp
  have later: "limiter_ok (call_time c) s"
    unfolding limiter_ok_def using c0' r w idle asleep by blast
  show ?thesis
  proof (cases c)
    case (Throttle t task)
    show ?thesis
    proof (cases "processing s")
      case True
      have "limiter_ok t (s\<lparr>queue := queue s @ [task]\<rparr>)"
        unfolding limiter_ok_def using c0' r w True Throttle by auto
      with True Throttle show ?thesis by (simp add: throttle_def processQueue_def)
    next
      case False
      let ?s' = "s\<lparr>queue := queue s @ [task], processing := True\<rparr>"
      from asleep False have n: "sleeping ?s' = None" by (cases "sleeping s") auto
      have "limiter_ok t (process_loop t ?s')"
      proof (rule process_loop_ok)
        show "\<exists>c\<le>t. requestTimestamps ?s' =
            filter (\<lambda>x. c - x < 60000) (map snd (started ?s'))"
          using c0' r Throttle by auto
        show "\<forall>a. length (in_window a (map snd (started ?s'))) \<le> maxRpm ?s'"
          using w by simp
        show "processing ?s'" by simp
        show "sleeping ?s' = None" by (rule n)
      qed
      with False Throttle show ?thesis by (simp add: throttle_def processQueue_def)
    qed
  next
    case (Timer t)
    show ?thesis
    proof (cases "sleeping s")
      case None
      with later Timer show ?thesis by (simp add: timer_fires_def)
    next
      case (Some due)
      show ?thesis
      proof (cases "t < due")
        case True
        with later Timer Some show ?thesis by (simp add: timer_fires_def)
      next
        case False
        let ?s' = "s\<lparr>sleeping := None\<rparr>"
        from asleep Some have p: "processing s" by simp
        have "limiter_ok t (process_loop t ?s')"
        proof (rule process_loop_ok)
          show "\<exists>c\<le>t. requestTimestamps ?s' =
              filter (\<lambda>x. c - x < 60000) (map snd (started ?s'))"
            using c0' r Timer by auto
          show "\<forall>a. length (in_window a (map snd (started ?s'))) \<le> maxRpm ?s'"
            using w by simp
          show "processing ?s'" using p by simp
          show "sleeping ?s' = None" by simp
        qed
        with False Timer Some show ?thesis by (simp add: timer_fires_def)
      qed
    qed
  qed
qed

lemma run_calls_ok:
  fixes s :: "'a limiter"
  assumes "limiter_ok t0 s" and "sorted (t0 # map call_time calls)"
  shows "\<exists>t. limiter_ok t (run_calls s calls)"
  using assms
proof (induction calls arbitrary: s t0)
  case Nil
  then show ?case unfolding run_calls_def by auto
next
  case (Cons c calls)
  from Cons.prems(2) have le: "t0 \<le> call_time c"
    and rest: "sorted (call_time c # map call_time calls)"
    by simp_all
  from Cons.IH [OF perform_ok [OF Cons.prems(1) le] rest]
  show ?case unfolding run_calls_def by simp
qed

lemma perform_maxRpm: "maxRpm (perform s c) = maxRpm s"
  by (cases c)
    (simp_all add: throttle_def processQueue_def timer_fires_def process_loop_maxRpm
      split: option.splits)

lemma run_calls_maxRpm: "maxRpm (run_calls s calls) = maxRpm s"
  unfolding run_calls_def
  by (induction calls arbitrary: s) (simp_all add: perform_maxRpm)

lemma perform_fifo:
  "map fst (started (perform s c)) @ queue (perform s c) =
   map fst (started s) @ queue s @ submitted [c]"
  by (cases c)
    (simp_all add: throttle_def processQueue_def timer_fires_def process_loop_fifo
      split: option.splits)

lemma submitted_Cons: "submitted (c # calls) = submitted [c] @ submitted calls"
  by (cases c) simp_all

lemma run_calls_fifo:
  "map fst (started (run_calls s calls)) @ queue (run_calls s calls) =
   map fst (started s) @ queue s @ submitted calls"
proof (induction calls arbitrary: s)
  case Nil
  show ?case by (simp add: run_calls_def)
next
  case (Cons c calls)
  have "map fst (started (run_calls s (c # calls))) @ queue (run_calls s (c # calls)) =
        map fst (started (perform s c)) @ queue (perform s c) @ submitted calls"
    using Cons [of "perform s c"] by (simp add: run_calls_def)
  also have "\<dots> = (map fst (started (perform s c)) @ queue (perform s c)) @ submitted calls"
    by simp
  also have "\<dots> = map fst (started s) @ queue s @ submitted (c # calls)"
    unfolding perform_fifo by (simp add: submitted_Cons [of c calls])
  finally show ?case .
qed

lemma throttle_idle:
  fixes s :: "'a limiter"
  assumes "\<not> processing s" and "queue s = []" and "under_capacity t s"
  shows "started (throttle t task s) = started s @ [(task, t)]"
proof -
  let ?s' = "s\<lparr>queue := queue s @ [task], processing := True\<rparr>"
  let ?s'' = "?s'\<lparr>queue := [],
    requestTimestamps := filter (\<lambda>x. t - x < 60000) (requestTimestamps ?s') @ [t],
    started := started ?s' @ [(task, t)]\<rparr>"
  have q: "queue ?s' = task # []" using assms(2) by simp
  have u: "length (filter (\<lambda>x. t - x < 60000) (requestTimestamps ?s')) < maxRpm ?s'"
    using assms(3) by (simp add: under_capacity_def)
  have "process_loop t ?s' = process_loop t ?s''"
    by (rule process_loop_admit [OF q u])
  also have "\<dots> = ?s''\<lparr>processing := False\<rparr>"
    by (rule process_loop_empty) simp
  finally show ?thesis using assms(1) by (simp add: throttle_def processQueue_def)
qed

text \<open>
  C5, as far as it holds: in a run of calls at non-decreasing times on a new limiter,
  no window of 60 seconds (the milliseconds \<open>a \<le> x < a + 60000\<close>) holds more than
  \<open>maxRpm\<close> admission timestamps; the tasks started and the tasks queued are, in this
  order, the tasks submitted, so that tasks are released in the order of submission;
  and a task submitted to an idle limiter whose window is under capacity is started
  within the call that submits it, with the time of submission as its timestamp.
\<close>

theorem admission_bound_fifo_idle:
  fixes calls :: "'a call list"
  assumes "sorted (map call_time calls)"
  shows "(\<forall>a. length (in_window a (map snd (started (run_calls (RateLimiter n) calls)))) \<le> n) \<and>
         map fst (started (run_calls (RateLimiter n) calls)) @
           queue (run_calls (RateLimiter n) calls) = submitted calls \<and>
         (\<forall>t task.
            \<not> processing (run_calls (RateLimiter n) calls) \<and>
            under_capacity t (run_calls (RateLimiter n) calls) \<longrightarrow>
            started (throttle t task (run_calls (RateLimiter n) calls)) =
              started (run_calls (RateLimiter n) calls) @ [(task, t)])"
proof -
  let ?s = "run_calls (RateLimiter n :: 'a limiter) calls"
  have "\<exists>t. limiter_ok t ?s"
  proof (cases calls)
    case Nil
    then show ?thesis using limiter_ok_new [of 0 n] by (auto simp add: run_calls_def)
  next
    case (Cons c cs)
    show ?thesis
      by (rule run_calls_ok [OF limiter_ok_new [of "call_time c" n]])
        (use assms Cons in simp)
  qed
  then obtain t0 where ok: "limiter_ok t0 ?s" by blast
  have m: "maxRpm ?s = n" by (simp add: run_calls_maxRpm RateLimiter_def)
  from ok m have one: "\<forall>a. length (in_window a (map snd (started ?s))) \<le> n"
    unfolding limiter_ok_def by simp
  have two: "map fst (started ?s) @ queue ?s = submitted calls"
    unfolding run_calls_fifo by (simp add: RateLimiter_def)
  have three: "started (throttle t task ?s) = started ?s @ [(task, t)]"
    if "\<not> processing ?s \<and> under_capacity t ?s" for t task
  proof (rule throttle_idle)
    from that show "\<not> processing ?s" and "under_capacity t ?s" by simp_all
    with ok show "queue ?s = []" unfolding limiter_ok_def by blast
  qed
  from one two three show ?thesis by blast
qed

theorem admission_bound_fifo_idle_witness:
  "length (in_window 0
     (map snd (started (run_calls (RateLimiter 2)
        [Throttle 0 (1 :: nat), Throttle 0 2, Throttle 1000 3, Timer 60100])))) \<le> 2 \<and>
   map fst (started (run_calls (RateLimiter 2)
        [Throttle 0 (1 :: nat), Throttle 0 2, Throttle 1000 3, Timer 60100])) = [1, 2, 3] \<and>
   started (throttle 70000 4 (run_calls (RateLimiter 2)
        [Throttle 0 (1 :: nat), Throttle 0 2, Throttle 1000 3, Timer 60100])) =
     [(1, 0), (2, 0), (3, 60100), (4, 70000)]"
proof -
  let ?calls = "[Throttle 0 (1 :: nat), Throttle 0 2, Throttle 1000 3, Timer 60100]"
  have s: "sorted (map call_time ?calls)" by simp
  have r: "run_calls (RateLimiter 2) ?calls =
    \<lparr>maxRpm = 2, queue = [], processing = False, requestTimestamps = [60100],
     started = [(1, 0), (2, 0), (3, 60100)], sleeping = None\<rparr>"
    by code_simp
  note c = admission_bound_fifo_idle [OF s, of 2, unfolded r]
  have u: "under_capacity 70000
    \<lparr>maxRpm = 2, queue = [] :: nat list, processing = False, requestTimestamps = [60100],
     started = [(1, 0), (2, 0), (3, 60100)], sleeping = None\<rparr>"
    by (simp add: under_capacity_def)
  from c u show ?thesis unfolding r by simp
qed

text \<open>
  Against C5 as stated: with \<open>maxRpm\<close> 2, tasks 1 and 2 are admitted at time 0 and task
  3, submitted at 1000, puts the loop to sleep until 60100. At 60050 both timestamps
  have left the window, which is under capacity; task 4, submitted then, is not started
  by its call: it is started with task 3 when the timer fires, at 60100.
\<close>

theorem sleeping_loop_delays_admission:
  "under_capacity 60050
     (run_calls (RateLimiter 2) [Throttle 0 (1 :: nat), Throttle 0 2, Throttle 1000 3]) \<and>
   started (run_calls (RateLimiter 2)
     [Throttle 0 (1 :: nat), Throttle 0 2, Throttle 1000 3, Throttle 60050 4]) =
     [(1, 0), (2, 0)] \<and>
   sleeping (run_calls (RateLimiter 2)
     [Throttle 0 (1 :: nat), Throttle 0 2, Throttle 1000 3, Throttle 60050 4]) =
     Some 60100 \<and>
   started (run_calls (RateLimiter 2)
     [Throttle 0 (1 :: nat), Throttle 0 2, Throttle 1000 3, Throttle 60050 4, Timer 60100]) =
     [(1, 0), (2, 0), (3, 60100), (4, 60100)]"
  by code_simp

end
